theory Spec2Isabelle
  imports Main "HOL-Library.AList"
begin

section \<open>The replication engine of mongocopy: \<^verbatim>\<open>src/core/copyService.js\<close>\<close>

text \<open>
  The development embeds \<^verbatim>\<open>copyCollections\<close> and its helper
  \<^verbatim>\<open>copyIndexesToTarget\<close>. The MongoDB driver, the file system and the two
  endpoints are the environment of the function; they are modelled by an explicit
  \<open>world\<close> that every operation takes and returns. An exception of the JavaScript is
  the left injection of a sum, and the world at the moment of the throw is returned with
  it, since writes that happened before a throw persist. A loop that does not return is
  the value \<open>None\<close>.

  Not modelled: the progress bar (\<^verbatim>\<open>cli-progress\<close>) and the logger, which
  never influence control flow or the stores; failures of read operations on an open
  connection and of the file system; the parameters \<^verbatim>\<open>sourceUri\<close>,
  \<^verbatim>\<open>targetUri\<close>, \<^verbatim>\<open>dbName\<close> and \<^verbatim>\<open>outputDir\<close>, which only
  select the endpoints and the directory that the world describes.

  Assumed of the environment: the source and the target are different stores, and nobody
  else writes to them during a run, so the source is the same at every read; writes to
  the target are acknowledged (the default write concern of the driver); a store rejects
  a document on insert when its identity is present, and on insert or replacement when
  the collection's validator does not accept it.
\<close>

subsection \<open>Documents, queries, indexes\<close>

text \<open>
  The values of fields. \<open>JIsoString t\<close> is the string that \<^verbatim>\<open>toISOString\<close> gives
  for the date \<open>t\<close>: it is what \<^verbatim>\<open>JSON.stringify\<close> writes for \<open>JDate t\<close> and
  what \<^verbatim>\<open>JSON.parse\<close> reads back; for a store it is a string, not a date.
\<close>

datatype jvalue = JDate int | JBool bool | JNum int | JStr string | JIsoString int

text \<open>
  A document: its identity field \<^verbatim>\<open>_id\<close>, taken to be a value that
  \<^verbatim>\<open>JSON.stringify\<close> and \<^verbatim>\<open>JSON.parse\<close> keep, and its other fields in order.
\<close>

record doc =
  doc_id :: nat
  doc_fields :: "(string \<times> jvalue) list"

text \<open>
  The filter built at lines 103-106: \<^verbatim>\<open>{}\<close>, or
  \<^verbatim>\<open>{[timestampField]: {$gte: since}}\<close>. A date bound is matched by date values
  only; a document without the field does not match.
\<close>

datatype query = QAll | QGte string int

fun matches :: "query \<Rightarrow> doc \<Rightarrow> bool" where
  "matches QAll d = True"
| "matches (QGte f t) d =
     (case map_of (doc_fields d) f of Some (JDate t') \<Rightarrow> t \<le> t' | _ \<Rightarrow> False)"

record index_def =
  idx_key :: "(string \<times> int) list"
  idx_name :: string
  idx_options :: "(string \<times> jvalue) list"

text \<open>
  A collection of a store: its documents in natural order, the per-document acceptance
  test of the store (a collection validator; \<open>True\<close> means accepted) and its indexes.
  A collection that does not exist behaves as one without documents.
\<close>

record collection =
  docs :: "doc list"
  validator :: "doc \<Rightarrow> bool"
  indexes :: "index_def list"

definition no_collection :: collection where
  "no_collection = \<lparr>docs = [], validator = (\<lambda>d. True), indexes = []\<rparr>"

subsection \<open>The world\<close>

datatype error =
  ConnectionError | DuplicateKey | DocumentValidationFailure | BulkWriteError
  | InvalidArgument | JsonSyntaxError | IndexConflict

text \<open>The operations issued against the target database, in the order of issue.\<close>

datatype target_op =
  OpInsertOne string doc
  | OpDeleteOne string nat
  | OpDeleteMany string
  | OpInsertMany string "doc list"
  | OpBulkWrite string "doc list"
  | OpCreateIndex string index_def

record client =
  reachable :: bool
  connected :: bool
  close_calls :: nat

text \<open>
  A file of the output directory: text that \<^verbatim>\<open>JSON.parse\<close> rejects, or the JSON
  array that parsing it gives.
\<close>

datatype 'a json_file = Unparsable | Parsed 'a

text \<open>
  \<open>source\<close> lists the collections of the source database in listing order.
  \<open>target\<close> gives every collection name its state on the target. \<open>data_files\<close> and
  \<open>index_files\<close> hold, per collection name \<open>n\<close>, the files \<^verbatim>\<open>n.json\<close> and
  \<^verbatim>\<open>n_indexes.json\<close> of the output directory (two names are assumed never to
  denote the same file).
\<close>

record world =
  source :: "(string \<times> collection) list"
  target :: "string \<Rightarrow> collection"
  target_ops :: "target_op list"
  data_files :: "string \<rightharpoonup> doc list json_file"
  index_files :: "string \<rightharpoonup> index_def list json_file"
  sourceClient :: client
  targetClient :: client

subsection \<open>The store operations the code calls\<close>

text \<open>\<^verbatim>\<open>sourceDb.collection(name)\<close>.\<close>

definition source_collection :: "world \<Rightarrow> string \<Rightarrow> collection" where
  "source_collection w name = (case map_of (source w) name of Some c \<Rightarrow> c | None \<Rightarrow> no_collection)"

text \<open>\<^verbatim>\<open>col.find(query)\<close>: the cursor delivers the matching documents in natural order.\<close>

definition find_cursor :: "world \<Rightarrow> string \<Rightarrow> query \<Rightarrow> doc list" where
  "find_cursor w name q = filter (matches q) (docs (source_collection w name))"

definition countDocuments :: "world \<Rightarrow> string \<Rightarrow> query \<Rightarrow> nat" where
  "countDocuments w name q = length (filter (matches q) (docs (source_collection w name)))"

definition findOne :: "world \<Rightarrow> string \<Rightarrow> query \<Rightarrow> doc option" where
  "findOne w name q = find (matches q) (docs (source_collection w name))"

definition ids :: "doc list \<Rightarrow> nat set" where
  "ids ds = doc_id ` set ds"

definition log_op :: "target_op \<Rightarrow> world \<Rightarrow> world" where
  "log_op x w = w\<lparr>target_ops := target_ops w @ [x]\<rparr>"

definition set_docs :: "string \<Rightarrow> doc list \<Rightarrow> world \<Rightarrow> world" where
  "set_docs name ds w = w\<lparr>target := (target w)(name := (target w name)\<lparr>docs := ds\<rparr>)\<rparr>"

text \<open>
  \<^verbatim>\<open>destCol.insertOne(d)\<close> with the default (acknowledged) write concern: rejected
  when the identity is already present or the collection does not accept the document;
  otherwise the document is appended and its identity returned.
\<close>

definition insertOne :: "string \<Rightarrow> doc \<Rightarrow> world \<Rightarrow> (error + nat) \<times> world" where
  "insertOne name d w =
     (let c = target w name; w1 = log_op (OpInsertOne name d) w in
      if doc_id d \<in> ids (docs c) then (Inl DuplicateKey, w1)
      else if \<not> validator c d then (Inl DocumentValidationFailure, w1)
      else (Inr (doc_id d), set_docs name (docs c @ [d]) w1))"

fun remove_first :: "nat \<Rightarrow> doc list \<Rightarrow> doc list" where
  "remove_first i [] = []"
| "remove_first i (d # ds) = (if doc_id d = i then ds else d # remove_first i ds)"

text \<open>\<^verbatim>\<open>destCol.deleteOne({_id: i})\<close>.\<close>

definition deleteOne :: "string \<Rightarrow> nat \<Rightarrow> world \<Rightarrow> world" where
  "deleteOne name i w =
     set_docs name (remove_first i (docs (target w name))) (log_op (OpDeleteOne name i) w)"

text \<open>\<^verbatim>\<open>destCol.deleteMany({})\<close>.\<close>

definition deleteMany :: "string \<Rightarrow> world \<Rightarrow> world" where
  "deleteMany name w = set_docs name [] (log_op (OpDeleteMany name) w)"

text \<open>
  An unordered batch: every document is attempted; the ones the store rejects are
  counted and left out. The result is the new document list and the number of write
  errors.
\<close>

fun insert_each :: "(doc \<Rightarrow> bool) \<Rightarrow> doc list \<Rightarrow> doc list \<Rightarrow> doc list \<times> nat" where
  "insert_each v [] ds = (ds, 0)"
| "insert_each v (d # batch) ds =
     (if doc_id d \<in> ids ds \<or> \<not> v d
      then (case insert_each v batch ds of (ds', n) \<Rightarrow> (ds', Suc n))
      else insert_each v batch (ds @ [d]))"

text \<open>
  \<^verbatim>\<open>destCol.insertMany(batch, {ordered: false})\<close>: raises for an empty batch, and
  raises after the batch when at least one document was rejected.
\<close>

definition insertMany :: "string \<Rightarrow> doc list \<Rightarrow> world \<Rightarrow> (error + unit) \<times> world" where
  "insertMany name batch w =
     (if batch = [] then (Inl InvalidArgument, w)
      else
        (let c = target w name; w1 = log_op (OpInsertMany name batch) w in
         case insert_each (validator c) batch (docs c) of
           (ds', n) \<Rightarrow>
             (if 0 < n then Inl BulkWriteError else Inr (), set_docs name ds' w1)))"

fun replace_first :: "doc \<Rightarrow> doc list \<Rightarrow> doc list" where
  "replace_first r [] = []"
| "replace_first r (d # ds) = (if doc_id d = doc_id r then r # ds else d # replace_first r ds)"

text \<open>
  One \<^verbatim>\<open>replaceOne\<close> with \<^verbatim>\<open>filter: {_id: doc._id}\<close>,
  \<^verbatim>\<open>replacement: doc\<close>, \<^verbatim>\<open>upsert: true\<close>.
\<close>

definition upsert :: "doc \<Rightarrow> doc list \<Rightarrow> doc list" where
  "upsert d ds = (if doc_id d \<in> ids ds then replace_first d ds else ds @ [d])"

fun upsert_each :: "(doc \<Rightarrow> bool) \<Rightarrow> doc list \<Rightarrow> doc list \<Rightarrow> doc list \<times> nat" where
  "upsert_each v [] ds = (ds, 0)"
| "upsert_each v (d # batch) ds =
     (if \<not> v d
      then (case upsert_each v batch ds of (ds', n) \<Rightarrow> (ds', Suc n))
      else upsert_each v batch (upsert d ds))"

text \<open>
  \<^verbatim>\<open>destCol.bulkWrite(bulkOps, {ordered: false})\<close> where \<^verbatim>\<open>bulkOps\<close> is the
  batch mapped to upserting replacements (lines 160-167, 229-236, 245-252).
\<close>

definition bulkWrite :: "string \<Rightarrow> doc list \<Rightarrow> world \<Rightarrow> (error + unit) \<times> world" where
  "bulkWrite name batch w =
     (if batch = [] then (Inl InvalidArgument, w)
      else
        (let c = target w name; w1 = log_op (OpBulkWrite name batch) w in
         case upsert_each (validator c) batch (docs c) of
           (ds', n) \<Rightarrow>
             (if 0 < n then Inl BulkWriteError else Inr (), set_docs name ds' w1)))"

text \<open>
  \<^verbatim>\<open>targetCol.createIndex(key, {...options, name})\<close>: nothing to do when the same
  index exists; a conflict when another index has the name or the key; otherwise the
  index is added.
\<close>

definition createIndex :: "string \<Rightarrow> index_def \<Rightarrow> world \<Rightarrow> (error + unit) \<times> world" where
  "createIndex name idx w =
     (let c = target w name; w1 = log_op (OpCreateIndex name idx) w in
      if idx \<in> set (indexes c) then (Inr (), w1)
      else if \<exists>j \<in> set (indexes c). idx_name j = idx_name idx \<or> idx_key j = idx_key idx
      then (Inl IndexConflict, w1)
      else (Inr (), w1\<lparr>target := (target w1)(name := c\<lparr>indexes := indexes c @ [idx]\<rparr>)\<rparr>))"

text \<open>\<^verbatim>\<open>client.connect()\<close> and \<^verbatim>\<open>client.close()\<close>.\<close>

definition connect :: "client \<Rightarrow> error + client" where
  "connect c = (if reachable c then Inr (c\<lparr>connected := True\<rparr>) else Inl ConnectionError)"

definition close :: "client \<Rightarrow> client" where
  "close c = c\<lparr>connected := False, close_calls := Suc (close_calls c)\<rparr>"

subsection \<open>Job options and results\<close>

text \<open>
  The options of \<^verbatim>\<open>copyCollections\<close> that decide what it does. \<open>batchSize\<close> is a
  natural number: the command line only passes positive integers, the API passes what
  it is given, zero included. \<open>since\<close> is the date as a number, \<open>None\<close> for
  \<^verbatim>\<open>null\<close>.
\<close>

record config =
  collections :: "string list"
  dryRun :: bool
  batchSize :: nat
  exportJson :: bool
  importJson :: bool
  copyIndexes :: bool
  validateSchema :: bool
  incremental :: bool
  timestampField :: string
  since :: "int option"

text \<open>An entry of \<^verbatim>\<open>summary\<close>.\<close>

record result =
  res_name :: string
  res_copied :: nat
  res_total :: nat
  res_status :: string
  res_error :: "error option"

definition mk_result :: "string \<Rightarrow> nat \<Rightarrow> nat \<Rightarrow> string \<Rightarrow> result" where
  "mk_result name c t s =
     \<lparr>res_name = name, res_copied = c, res_total = t, res_status = s, res_error = None\<rparr>"

subsection \<open>The parts of the loop body\<close>

text \<open>Lines 103-106.\<close>

definition build_query :: "config \<Rightarrow> query" where
  "build_query cfg =
     (if incremental cfg
      then (case since cfg of None \<Rightarrow> QAll | Some t \<Rightarrow> QGte (timestampField cfg) t)
      else QAll)"

text \<open>\<^verbatim>\<open>{ ...sampleDoc, _validationTest: true }\<close>: the sample with its identity kept.\<close>

definition validation_doc :: "doc \<Rightarrow> doc" where
  "validation_doc sampleDoc =
     sampleDoc\<lparr>doc_fields := AList.update ''_validationTest'' (JBool True) (doc_fields sampleDoc)\<rparr>"

text \<open>
  Lines 117-125, the body of the \<^verbatim>\<open>try\<close>; the \<^verbatim>\<open>catch\<close> is in
  \<open>process_collection\<close>. The write is acknowledged, so the delete is issued.
\<close>

definition schema_probe :: "string \<Rightarrow> query \<Rightarrow> world \<Rightarrow> (error + unit) \<times> world" where
  "schema_probe name q w =
     (case findOne w name q of
        None \<Rightarrow> (Inr (), w)
      | Some sampleDoc \<Rightarrow>
          (case insertOne name (validation_doc sampleDoc) w of
             (Inl err, w') \<Rightarrow> (Inl err, w')
           | (Inr insertedId, w') \<Rightarrow> (Inr (), deleteOne name insertedId w')))"

text \<open>Lines 295-312. A failing \<^verbatim>\<open>createIndex\<close> is caught and the loop goes on.\<close>

definition strip_internal :: "index_def \<Rightarrow> index_def" where
  "strip_internal index =
     index\<lparr>idx_options := filter (\<lambda>(k, v). k \<noteq> ''v'' \<and> k \<noteq> ''ns'') (idx_options index)\<rparr>"

fun create_indexes :: "string \<Rightarrow> index_def list \<Rightarrow> world \<Rightarrow> world" where
  "create_indexes name [] w = w"
| "create_indexes name (index # rest) w =
     create_indexes name rest (snd (createIndex name (strip_internal index) w))"

definition copyIndexesToTarget :: "string \<Rightarrow> index_def list \<Rightarrow> world \<Rightarrow> world" where
  "copyIndexesToTarget name ixs w =
     create_indexes name (filter (\<lambda>idx. idx_name idx \<noteq> ''_id_'') ixs) w"

text \<open>
  Lines 262-264, the inner \<^verbatim>\<open>for\<close>: \<open>cursor\<close> is what the cursor still has to
  deliver; the result is the batch and the rest of the cursor.
\<close>

fun fill_batch :: "nat \<Rightarrow> nat \<Rightarrow> doc list \<Rightarrow> doc list \<Rightarrow> doc list \<times> doc list" where
  "fill_batch i b [] batch = (batch, [])"
| "fill_batch i b (d # cursor) batch =
     (if i < b then fill_batch (Suc i) b cursor (batch @ [d]) else (batch, d # cursor))"

text \<open>
  Lines 260-270, the full copy. With \<open>b = 0\<close> the inner loop takes nothing and the
  outer loop does not end.
\<close>

partial_function (option) full_copy_loop ::
  "nat \<Rightarrow> string \<Rightarrow> doc list \<Rightarrow> nat \<Rightarrow> world \<Rightarrow> ((error + nat) \<times> world) option" where
  "full_copy_loop b name cursor copied w =
     (if cursor \<noteq> [] then
        (case fill_batch 0 b cursor [] of
           (batch, cursor') \<Rightarrow>
             if batch \<noteq> [] then
               (case insertMany name batch w of
                  (Inl err, w') \<Rightarrow> Some (Inl err, w')
                | (Inr u, w') \<Rightarrow> full_copy_loop b name cursor' (copied + length batch) w')
             else full_copy_loop b name cursor' copied w)
      else Some (Inr copied, w))"

declare full_copy_loop.simps [code]

text \<open>Lines 225-241, the incremental loop; the result carries the batch left over.\<close>

fun incremental_loop ::
  "nat \<Rightarrow> string \<Rightarrow> doc list \<Rightarrow> doc list \<Rightarrow> nat \<Rightarrow> world \<Rightarrow> (error + doc list \<times> nat) \<times> world" where
  "incremental_loop b name [] batch copied w = (Inr (batch, copied), w)"
| "incremental_loop b name (d # cursor) batch copied w =
     (if b \<le> length (batch @ [d]) then
        (case bulkWrite name (batch @ [d]) w of
           (Inl err, w') \<Rightarrow> (Inl err, w')
         | (Inr u, w') \<Rightarrow> incremental_loop b name cursor [] (copied + length (batch @ [d])) w')
      else incremental_loop b name cursor (batch @ [d]) copied w)"

text \<open>Lines 224-255: the loop, then the remaining documents.\<close>

definition incremental_copy ::
  "nat \<Rightarrow> string \<Rightarrow> doc list \<Rightarrow> world \<Rightarrow> (error + nat) \<times> world" where
  "incremental_copy b name cursor w =
     (case incremental_loop b name cursor [] 0 w of
        (Inl err, w') \<Rightarrow> (Inl err, w')
      | (Inr (batch, copied), w') \<Rightarrow>
          if 0 < length batch then
            (case bulkWrite name batch w' of
               (Inl err, w'') \<Rightarrow> (Inl err, w'')
             | (Inr u, w'') \<Rightarrow> (Inr (copied + length batch), w''))
          else (Inr copied, w'))"

text \<open>
  Lines 158-169 and 172-176, the two loops of the import, which differ in the write
  only: \<^verbatim>\<open>json.slice(i, i + batchSize)\<close> is \<open>take b (drop i json)\<close>.
\<close>

partial_function (option) import_loop ::
  "(string \<Rightarrow> doc list \<Rightarrow> world \<Rightarrow> (error + unit) \<times> world) \<Rightarrow> nat \<Rightarrow> string \<Rightarrow> doc list \<Rightarrow>
   nat \<Rightarrow> world \<Rightarrow> ((error + unit) \<times> world) option" where
  "import_loop write b name json i w =
     (if i < length json then
        (case write name (take b (drop i json)) w of
           (Inl err, w') \<Rightarrow> Some (Inl err, w')
         | (Inr u, w') \<Rightarrow> import_loop write b name json (i + b) w')
      else Some (Inr (), w))"

declare import_loop.simps [code]

text \<open>Lines 198-202, the loop that drains the cursor into \<^verbatim>\<open>allDocs\<close>.\<close>

fun export_loop :: "doc list \<Rightarrow> doc list \<Rightarrow> doc list" where
  "export_loop [] allDocs = allDocs"
| "export_loop (d # cursor) allDocs = export_loop cursor (allDocs @ [d])"

subsection \<open>The loop body, the loop and the function\<close>

text \<open>Lines 141-191, the import branch.\<close>

definition import_collection :: "config \<Rightarrow> string \<Rightarrow> world \<Rightarrow> ((error + result) \<times> world) option" where
  "import_collection cfg name w =
     (case data_files w name of
        None \<Rightarrow> Some (Inr (mk_result name 0 0 ''no-json-file''), w)
      | Some Unparsable \<Rightarrow> Some (Inl JsonSyntaxError, w)
      | Some (Parsed json) \<Rightarrow>
          if length json = 0 then Some (Inr (mk_result name 0 0 ''json-empty''), w)
          else
            (case (if incremental cfg then import_loop bulkWrite (batchSize cfg) name json 0 w
                   else import_loop insertMany (batchSize cfg) name json 0 (deleteMany name w)) of
               None \<Rightarrow> None
             | Some (Inl err, w') \<Rightarrow> Some (Inl err, w')
             | Some (Inr u, w') \<Rightarrow>
                 (let r = mk_result name (length json) (length json) ''imported-json'' in
                  if copyIndexes cfg then
                    (case index_files w' name of
                       None \<Rightarrow> Some (Inr r, w')
                     | Some Unparsable \<Rightarrow> Some (Inl JsonSyntaxError, w')
                     | Some (Parsed ixs) \<Rightarrow> Some (Inr r, copyIndexesToTarget name ixs w'))
                  else Some (Inr r, w'))))"

text \<open>
  \<^verbatim>\<open>JSON.stringify\<close> (lines 203 and 209) writes a date as its ISO string, so that
  is what the file holds for it.
\<close>

fun stringify_value :: "jvalue \<Rightarrow> jvalue" where
  "stringify_value (JDate t) = JIsoString t"
| "stringify_value v = v"

definition stringify_doc :: "doc \<Rightarrow> doc" where
  "stringify_doc d = d\<lparr>doc_fields := map (\<lambda>(k, v). (k, stringify_value v)) (doc_fields d)\<rparr>"

definition stringify_index :: "index_def \<Rightarrow> index_def" where
  "stringify_index idx =
     idx\<lparr>idx_options := map (\<lambda>(k, v). (k, stringify_value v)) (idx_options idx)\<rparr>"

text \<open>
  Lines 192-215, the export branch. Line 98, which creates the output directory when it
  is missing, leaves the files of the world as they are.
\<close>

definition export_collection ::
  "config \<Rightarrow> string \<Rightarrow> query \<Rightarrow> nat \<Rightarrow> world \<Rightarrow> (error + result) \<times> world" where
  "export_collection cfg name q total_count w =
     (let allDocs = export_loop (find_cursor w name q) [];
          w1 = w\<lparr>data_files := (data_files w)(name \<mapsto> Parsed (map stringify_doc allDocs))\<rparr>;
          w2 = (if copyIndexes cfg
                then w1\<lparr>index_files :=
                          (index_files w1)
                          (name \<mapsto> Parsed (map stringify_index (indexes (source_collection w name))))\<rparr>
                else w1)
      in (Inr (mk_result name (length allDocs) total_count ''exported-json''), w2))"

text \<open>Lines 216-280, the copy from store to store.\<close>

definition live_copy ::
  "config \<Rightarrow> string \<Rightarrow> query \<Rightarrow> nat \<Rightarrow> world \<Rightarrow> ((error + result) \<times> world) option" where
  "live_copy cfg name q total_count w =
     (let cursor = find_cursor w name q in
      case (if incremental cfg then Some (incremental_copy (batchSize cfg) name cursor w)
            else full_copy_loop (batchSize cfg) name cursor 0 (deleteMany name w)) of
        None \<Rightarrow> None
      | Some (Inl err, w') \<Rightarrow> Some (Inl err, w')
      | Some (Inr copied, w') \<Rightarrow>
          Some (Inr (mk_result name copied total_count
                       (if incremental cfg then ''incremental-copied'' else ''copied'')),
                if copyIndexes cfg
                then copyIndexesToTarget name (indexes (source_collection w name)) w'
                else w'))"

text \<open>Line 115, the guard of the probe.\<close>

definition run_probe :: "config \<Rightarrow> string \<Rightarrow> query \<Rightarrow> world \<Rightarrow> (error + unit) \<times> world" where
  "run_probe cfg name q w =
     (if validateSchema cfg \<and> \<not> dryRun cfg \<and> \<not> exportJson cfg
      then schema_probe name q w else (Inr (), w))"

text \<open>
  Lines 100-280, one turn of \<^verbatim>\<open>for (const name of collections)\<close>. \<open>Inr r\<close> is
  \<^verbatim>\<open>summary.push(r)\<close> followed by the next turn; \<open>Inl\<close> is an exception that
  leaves the loop. The only \<^verbatim>\<open>catch\<close> of the body is the one around the probe.
\<close>

definition process_collection ::
  "config \<Rightarrow> string \<Rightarrow> world \<Rightarrow> ((error + result) \<times> world) option" where
  "process_collection cfg name w =
     (let q = build_query cfg; total_count = countDocuments w name q in
      if total_count = 0
      then Some (Inr (mk_result name 0 total_count (if incremental cfg then ''no-new-docs'' else ''empty'')), w)
      else
        (case run_probe cfg name q w of
           (Inl err, w1) \<Rightarrow>
             Some (Inr ((mk_result name 0 total_count ''schema-validation-failed'')\<lparr>res_error := Some err\<rparr>), w1)
         | (Inr u, w1) \<Rightarrow>
             if dryRun cfg then Some (Inr (mk_result name 0 total_count ''dry-run''), w1)
             else if importJson cfg then import_collection cfg name w1
             else if exportJson cfg then Some (export_collection cfg name q total_count w1)
             else live_copy cfg name q total_count w1))"

fun copy_loop ::
  "config \<Rightarrow> string list \<Rightarrow> result list \<Rightarrow> world \<Rightarrow> ((error + result list) \<times> world) option" where
  "copy_loop cfg [] summary w = Some (Inr summary, w)"
| "copy_loop cfg (name # rest) summary w =
     (case process_collection cfg name w of
        None \<Rightarrow> None
      | Some (Inl err, w') \<Rightarrow> Some (Inl err, w')
      | Some (Inr r, w') \<Rightarrow> copy_loop cfg rest (summary @ [r]) w')"

text \<open>Lines 93-96.\<close>

definition resolve_collections :: "string list \<Rightarrow> string list \<Rightarrow> string list" where
  "resolve_collections requested allNames =
     (if requested = [] then allNames else filter (\<lambda>c. c \<in> set allNames) requested)"

text \<open>Lines 284-286, the \<^verbatim>\<open>finally\<close> block.\<close>

definition close_both :: "world \<Rightarrow> world" where
  "close_both w = w\<lparr>sourceClient := close (sourceClient w), targetClient := close (targetClient w)\<rparr>"

text \<open>
  Lines 74-288. The two \<^verbatim>\<open>connect\<close> calls come before the \<^verbatim>\<open>try\<close>; the
  \<^verbatim>\<open>finally\<close> block runs after the body, returned or thrown.
\<close>

definition copyCollections :: "config \<Rightarrow> world \<Rightarrow> ((error + result list) \<times> world) option" where
  "copyCollections cfg w =
     (case connect (sourceClient w) of
        Inl err \<Rightarrow> Some (Inl err, w)
      | Inr sc \<Rightarrow>
          (let w1 = w\<lparr>sourceClient := sc\<rparr> in
           case connect (targetClient w1) of
             Inl err \<Rightarrow> Some (Inl err, w1)
           | Inr tc \<Rightarrow>
               (let w2 = w1\<lparr>targetClient := tc\<rparr>;
                    allNames = map fst (source w2)
                in case copy_loop cfg (resolve_collections (collections cfg) allNames) [] w2 of
                     None \<Rightarrow> None
                   | Some (r, w3) \<Rightarrow> Some (r, close_both w3))))"

subsection \<open>Auxiliary notions and example data\<close>

text \<open>
  What an operation on the target collection \<open>name\<close> leaves alone: the source, the two
  clients, every other target collection and the acceptance test of the collection.
\<close>

definition frame :: "string \<Rightarrow> world \<Rightarrow> world \<Rightarrow> bool" where
  "frame name w w' \<longleftrightarrow>
     source w' = source w \<and> sourceClient w' = sourceClient w \<and> targetClient w' = targetClient w \<and>
     (\<forall>n. n \<noteq> name \<longrightarrow> target w' n = target w n) \<and>
     validator (target w' name) = validator (target w name)"

text \<open>
  Following the spec's words for the selection: the requested set intersected with the
  collections of the source, in the listing order of the source.
\<close>

definition source_order_selection :: "string list \<Rightarrow> string list \<Rightarrow> string list" where
  "source_order_selection requested allNames =
     (if requested = [] then allNames else filter (\<lambda>c. c \<in> set requested) allNames)"

text \<open>
  The shape of a sequence of batches for batch size \<open>b\<close>: every batch but the last has
  \<open>b\<close> elements and the last one has between 1 and \<open>b\<close>. \<open>batched\<close> follows the
  words of the spec for the batches of a cursor: in order they make up what the cursor
  delivers, and there are \<open>ceil (n / b)\<close> of them.
\<close>

definition batch_shape :: "nat \<Rightarrow> 'a list list \<Rightarrow> bool" where
  "batch_shape b batches \<longleftrightarrow>
     (\<forall>B \<in> set (butlast batches). length B = b) \<and>
     (batches \<noteq> [] \<longrightarrow> 0 < length (last batches) \<and> length (last batches) \<le> b)"

definition batched :: "nat \<Rightarrow> 'a list \<Rightarrow> 'a list list \<Rightarrow> bool" where
  "batched b xs batches \<longleftrightarrow>
     concat batches = xs \<and> length batches = (length xs + b - 1) div b \<and> batch_shape b batches"

text \<open>
  \<open>upserted name xs w w'\<close>: the target of \<open>w'\<close> is the target of \<open>w\<close> after the
  documents \<open>xs\<close> were upserted, in order, into the collection \<open>name\<close>.
\<close>

definition upserted :: "string \<Rightarrow> doc list \<Rightarrow> world \<Rightarrow> world \<Rightarrow> bool" where
  "upserted name xs w w' \<longleftrightarrow>
     target w' = (target w)(name := (target w name)\<lparr>docs := fold upsert xs (docs (target w name))\<rparr>)"

text \<open>An operation that changes nothing but the target and the log of its operations.\<close>

definition target_only :: "world \<Rightarrow> world \<Rightarrow> bool" where
  "target_only w w' \<longleftrightarrow>
     source w' = source w \<and> data_files w' = data_files w \<and> index_files w' = index_files w \<and>
     sourceClient w' = sourceClient w \<and> targetClient w' = targetClient w"

text \<open>What \<^verbatim>\<open>createIndex\<close> does to the index list of the collection.\<close>

definition add_index :: "index_def \<Rightarrow> index_def list \<Rightarrow> index_def list" where
  "add_index idx ixs =
     (if idx \<in> set ixs \<or> (\<exists>j \<in> set ixs. idx_name j = idx_name idx \<or> idx_key j = idx_key idx)
      then ixs else ixs @ [idx])"

text \<open>From \<open>w\<close> to \<open>w'\<close> operations were issued, none of them a \<^verbatim>\<open>deleteMany\<close>.\<close>

definition no_delete_many :: "world \<Rightarrow> world \<Rightarrow> bool" where
  "no_delete_many w w' \<longleftrightarrow>
     (\<exists>ops. target_ops w' = target_ops w @ ops \<and> (\<forall>n. OpDeleteMany n \<notin> set ops))"

text \<open>
  \<open>agrees cfg name w v\<close>: \<open>v\<close> has the source of \<open>w\<close>, the same target collection
  \<open>name\<close> and, in import mode, the same files. A collection is \<open>settled\<close> in \<open>w\<close>
  when a turn of the loop for it, from any world that agrees with \<open>w\<close>, returns and
  leaves the target as it is. \<open>transfer_docs\<close> are the documents a turn has to write:
  those of the data file in import mode, the matching source documents otherwise.
\<close>

definition agrees :: "config \<Rightarrow> string \<Rightarrow> world \<Rightarrow> world \<Rightarrow> bool" where
  "agrees cfg name w v \<longleftrightarrow>
     source v = source w \<and> target v name = target w name \<and>
     (importJson cfg \<longrightarrow> data_files v = data_files w \<and> index_files v = index_files w)"

definition settled :: "config \<Rightarrow> string \<Rightarrow> world \<Rightarrow> bool" where
  "settled cfg name w \<longleftrightarrow>
     (\<forall>v. agrees cfg name w v \<longrightarrow>
        (\<exists>res v'. process_collection cfg name v = Some (res, v') \<and> target v' = target v))"

definition transfer_docs :: "config \<Rightarrow> world \<Rightarrow> string \<Rightarrow> doc set" where
  "transfer_docs cfg w name =
     (if importJson cfg
      then (case data_files w name of Some (Parsed json) \<Rightarrow> set json | _ \<Rightarrow> {})
      else set (find_cursor w name (build_query cfg)))"

text \<open>The world a computation leaves; the given world when it does not return.\<close>

definition world_after :: "('a \<times> world) option \<Rightarrow> world \<Rightarrow> world" where
  "world_after res w = (case res of None \<Rightarrow> w | Some (r, w') \<Rightarrow> w')"

text \<open>
  The target's validator rejects one of the documents of the collection that match the
  query of the run.
\<close>

definition target_rejects :: "config \<Rightarrow> world \<Rightarrow> string \<Rightarrow> bool" where
  "target_rejects cfg w name \<longleftrightarrow>
     (\<exists>d \<in> set (find_cursor w name (build_query cfg)). \<not> validator (target w name) d)"

text \<open>Three documents, stores and options for concrete runs.\<close>

definition alice :: doc where
  "alice = \<lparr>doc_id = 1, doc_fields = [(''name'', JStr ''Alice''), (''updatedAt'', JDate 100)]\<rparr>"

definition bob :: doc where
  "bob = \<lparr>doc_id = 2, doc_fields = [(''name'', JStr ''Bob''), (''updatedAt'', JDate 200)]\<rparr>"

definition carol :: doc where
  "carol = \<lparr>doc_id = 3, doc_fields = [(''name'', JStr ''Carol''), (''updatedAt'', JDate 300)]\<rparr>"

definition plain :: "doc list \<Rightarrow> collection" where
  "plain ds = \<lparr>docs = ds, validator = (\<lambda>d. True), indexes = []\<rparr>"

text \<open>A target collection whose validator rejects the document with identity 2.\<close>

definition picky :: "doc list \<Rightarrow> collection" where
  "picky ds = \<lparr>docs = ds, validator = (\<lambda>d. doc_id d \<noteq> 2), indexes = []\<rparr>"

definition fresh_client :: "bool \<Rightarrow> client" where
  "fresh_client r = \<lparr>reachable = r, connected = False, close_calls = 0\<rparr>"

definition demo_world :: "(string \<times> collection) list \<Rightarrow> (string \<Rightarrow> collection) \<Rightarrow> world" where
  "demo_world src tgt =
     \<lparr>source = src, target = tgt, target_ops = [], data_files = Map.empty, index_files = Map.empty,
      sourceClient = fresh_client True, targetClient = fresh_client True\<rparr>"

definition demo_config :: config where
  "demo_config =
     \<lparr>collections = [], dryRun = False, batchSize = 2, exportJson = False, importJson = False,
      copyIndexes = False, validateSchema = False, incremental = False,
      timestampField = ''updatedAt'', since = None\<rparr>"

section \<open>Lemmas about the model\<close>

subsection \<open>What the store operations leave alone\<close>


lemma log_op_simps [simp]:
  "source (log_op x w) = source w"
  "target (log_op x w) = target w"
  "target_ops (log_op x w) = target_ops w @ [x]"
  "data_files (log_op x w) = data_files w"
  "index_files (log_op x w) = index_files w"
  "sourceClient (log_op x w) = sourceClient w"
  "targetClient (log_op x w) = targetClient w"
  by (simp_all add: log_op_def)

lemma set_docs_simps [simp]:
  "source (set_docs n ds w) = source w"
  "target_ops (set_docs n ds w) = target_ops w"
  "data_files (set_docs n ds w) = data_files w"
  "index_files (set_docs n ds w) = index_files w"
  "sourceClient (set_docs n ds w) = sourceClient w"
  "targetClient (set_docs n ds w) = targetClient w"
  "docs (target (set_docs n ds w) n) = ds"
  "validator (target (set_docs n ds w) m) = validator (target w m)"
  "indexes (target (set_docs n ds w) m) = indexes (target w m)"
  "m \<noteq> n \<Longrightarrow> target (set_docs n ds w) m = target w m"
  by (simp_all add: set_docs_def)

lemma set_docs_same: "set_docs n (docs (target w n)) w = w"
  by (simp add: set_docs_def)

lemma source_collection_cong: "source w' = source w \<Longrightarrow> source_collection w' = source_collection w"
  by (simp add: source_collection_def fun_eq_iff)

lemma reads_cong:
  assumes "source w' = source w"
  shows "find_cursor w' = find_cursor w" "countDocuments w' = countDocuments w" "findOne w' = findOne w"
  using source_collection_cong [OF assms]
  by (simp_all add: find_cursor_def countDocuments_def findOne_def fun_eq_iff)


lemma frame_refl [simp]: "frame name w w"
  by (simp add: frame_def)

lemma frame_trans: "frame name w w1 \<Longrightarrow> frame name w1 w2 \<Longrightarrow> frame name w w2"
  by (simp add: frame_def)

lemma frame_log_op [simp]: "frame name w (log_op x w)"
  by (simp add: frame_def)

lemma frame_set_docs: "frame name w (set_docs name ds w)"
  by (simp add: frame_def)

lemma frame_set_docs_log [simp]: "frame name w (set_docs name ds (log_op x w))"
  by (simp add: frame_def)

lemma insertOne_frame: "insertOne name d w = (r, w') \<Longrightarrow> frame name w w'"
  by (auto simp: insertOne_def Let_def split: if_splits)

lemma deleteOne_frame [simp]: "frame name w (deleteOne name i w)"
  by (simp add: deleteOne_def)

lemma deleteMany_frame [simp]: "frame name w (deleteMany name w)"
  by (simp add: deleteMany_def)

lemma insertMany_frame: "insertMany name batch w = (r, w') \<Longrightarrow> frame name w w'"
  by (auto simp: insertMany_def Let_def split: if_splits prod.splits)

lemma bulkWrite_frame: "bulkWrite name batch w = (r, w') \<Longrightarrow> frame name w w'"
  by (auto simp: bulkWrite_def Let_def split: if_splits prod.splits)

lemma createIndex_frame: "frame name w (snd (createIndex name idx w))"
  by (simp add: createIndex_def Let_def frame_def)

lemma create_indexes_frame: "frame name w (create_indexes name ixs w)"
proof (induction ixs arbitrary: w)
  case Nil
  show ?case by simp
next
  case (Cons index rest)
  show ?case
    using frame_trans [OF createIndex_frame Cons.IH] by simp
qed

lemma copyIndexesToTarget_frame [simp]: "frame name w (copyIndexesToTarget name ixs w)"
  by (simp add: copyIndexesToTarget_def create_indexes_frame)

lemma schema_probe_frame: "schema_probe name q w = (r, w') \<Longrightarrow> frame name w w'"
  by (auto simp: schema_probe_def split: option.splits prod.splits sum.splits
      dest!: insertOne_frame intro: frame_trans [OF _ deleteOne_frame])

lemma run_probe_frame: "run_probe cfg name q w = (r, w') \<Longrightarrow> frame name w w'"
  by (auto simp: run_probe_def split: if_splits dest: schema_probe_frame)

lemma full_copy_loop_frame_snd:
  assumes "full_copy_loop b name cursor copied w = Some y"
  shows "frame name w (snd y)"
  using assms
proof (induction rule: full_copy_loop.raw_induct [rotated 1, consumes 1])
  case (1 loop b name cursor copied w y)
  then show ?case
    by (cases y) (auto split: if_splits prod.splits sum.splits
        dest!: insertMany_frame intro: frame_trans)
qed

lemma full_copy_loop_frame:
  "full_copy_loop b name cursor copied w = Some (r, w') \<Longrightarrow> frame name w w'"
  using full_copy_loop_frame_snd by fastforce

lemma incremental_loop_frame:
  "incremental_loop b name cursor batch copied w = (r, w') \<Longrightarrow> frame name w w'"
proof (induction b name cursor batch copied w rule: incremental_loop.induct)
  case (1 b name batch copied w)
  then show ?case by auto
next
  case (2 b name d cursor batch copied w)
  then show ?case
    by (auto split: if_splits prod.splits sum.splits
        dest!: bulkWrite_frame intro: frame_trans)
qed

lemma incremental_copy_frame:
  "incremental_copy b name cursor w = (r, w') \<Longrightarrow> frame name w w'"
  by (auto simp: incremental_copy_def split: if_splits prod.splits sum.splits
      dest!: bulkWrite_frame incremental_loop_frame intro: frame_trans)

lemma import_loop_frame_snd:
  assumes "import_loop wr b name json i w = Some y"
    and "\<And>batch w r w'. wr name batch w = (r, w') \<Longrightarrow> frame name w w'"
  shows "frame name w (snd y)"
  using assms
proof (induction rule: import_loop.raw_induct [rotated 1, consumes 1])
  case (1 loop wr' b name json i w y)
  show ?case
  proof (cases "i < length json")
    case False
    with 1(2) show ?thesis by auto
  next
    case True
    obtain r w1 where step: "wr' name (take b (drop i json)) w = (r, w1)"
      by (cases "wr' name (take b (drop i json)) w")
    have f1: "frame name w w1" using 1(3) [OF step] .
    show ?thesis
    proof (cases r)
      case (Inl err)
      with 1(2) True step f1 show ?thesis by auto
    next
      case (Inr u)
      with 1(2) True step have "loop wr' b name json (i + b) w1 = Some y" by simp
      from 1(1) [OF this 1(3)] have "frame name w1 (snd y)" by simp
      with f1 show ?thesis by (rule frame_trans)
    qed
  qed
qed


lemma import_loop_frame:
  "import_loop insertMany b name json i w = Some (r, w') \<Longrightarrow> frame name w w'"
  "import_loop bulkWrite b name json i w = Some (r, w') \<Longrightarrow> frame name w w'"
  using import_loop_frame_snd [of insertMany b name json i w "(r, w')"] insertMany_frame
    import_loop_frame_snd [of bulkWrite b name json i w "(r, w')"] bulkWrite_frame
  by auto

lemma import_collection_frame:
  "import_collection cfg name w = Some (r, w') \<Longrightarrow> frame name w w'"
  by (auto simp: import_collection_def Let_def
      split: option.splits json_file.splits if_splits prod.splits sum.splits
      dest!: import_loop_frame
      intro: frame_trans [OF deleteMany_frame] frame_trans [OF _ copyIndexesToTarget_frame])

lemma export_collection_frame:
  "export_collection cfg name q t w = (r, w') \<Longrightarrow> frame name w w'"
  by (auto simp: export_collection_def Let_def frame_def)

lemma live_copy_frame:
  "live_copy cfg name q t w = Some (r, w') \<Longrightarrow> frame name w w'"
  by (auto simp: live_copy_def Let_def
      split: option.splits if_splits prod.splits sum.splits
      dest!: full_copy_loop_frame incremental_copy_frame
      intro: frame_trans [OF deleteMany_frame] frame_trans [OF _ copyIndexesToTarget_frame]
        frame_trans [OF deleteMany_frame frame_trans [OF _ copyIndexesToTarget_frame]])

lemma process_collection_frame:
  assumes "process_collection cfg name w = Some (r, w')"
  shows "frame name w w'"
proof -
  obtain p w1 where probe: "run_probe cfg name (build_query cfg) w = (p, w1)"
    by (cases "run_probe cfg name (build_query cfg) w")
  have f1: "frame name w w1" using run_probe_frame [OF probe] .
  show ?thesis
  proof (cases "countDocuments w name (build_query cfg) = 0")
    case True
    with assms show ?thesis by (simp add: process_collection_def)
  next
    case False
    show ?thesis
    proof (cases p)
      case (Inl err)
      with assms False probe f1 show ?thesis by (simp add: process_collection_def)
    next
      case (Inr u)
      with assms False probe have
        "(if dryRun cfg then Some (Inr (mk_result name 0 (countDocuments w name (build_query cfg)) ''dry-run''), w1)
          else if importJson cfg then import_collection cfg name w1
          else if exportJson cfg
               then Some (export_collection cfg name (build_query cfg) (countDocuments w name (build_query cfg)) w1)
               else live_copy cfg name (build_query cfg) (countDocuments w name (build_query cfg)) w1) = Some (r, w')"
        by (simp add: process_collection_def Let_def)
      then have "frame name w1 w'"
        by (auto split: if_splits
            dest: import_collection_frame export_collection_frame live_copy_frame)
      with f1 show ?thesis by (rule frame_trans)
    qed
  qed
qed

lemma mk_result_simps [simp]:
  "res_name (mk_result n c t s) = n"
  "res_copied (mk_result n c t s) = c"
  "res_total (mk_result n c t s) = t"
  "res_status (mk_result n c t s) = s"
  "res_error (mk_result n c t s) = None"
  by (simp_all add: mk_result_def)

lemma import_collection_name:
  "import_collection cfg name w = Some (Inr r, w') \<Longrightarrow> res_name r = name"
  by (auto simp: import_collection_def Let_def
      split: option.splits json_file.splits if_splits prod.splits sum.splits)

lemma live_copy_name:
  "live_copy cfg name q t w = Some (Inr r, w') \<Longrightarrow> res_name r = name"
  by (auto simp: live_copy_def Let_def split: option.splits if_splits prod.splits sum.splits)

lemma process_collection_name:
  "process_collection cfg name w = Some (Inr r, w') \<Longrightarrow> res_name r = name"
  by (auto simp: process_collection_def Let_def export_collection_def
      split: option.splits if_splits prod.splits sum.splits
      dest: import_collection_name live_copy_name)

lemma copy_loop_names:
  "copy_loop cfg names summary w = Some (Inr results, w') \<Longrightarrow>
   map res_name results = map res_name summary @ names"
proof (induction names arbitrary: summary w)
  case Nil
  then show ?case by simp
next
  case (Cons name rest)
  then show ?case
    by (auto split: option.splits prod.splits sum.splits dest: process_collection_name)
qed

lemma copy_loop_source:
  "copy_loop cfg names summary w = Some (r, w') \<Longrightarrow>
   source w' = source w \<and> sourceClient w' = sourceClient w \<and> targetClient w' = targetClient w"
proof (induction names arbitrary: summary w)
  case Nil
  then show ?case by simp
next
  case (Cons name rest)
  then show ?case
    by (fastforce split: option.splits prod.splits sum.splits
        dest: process_collection_frame simp: frame_def)
qed

subsection \<open>The schema probe\<close>

lemma remove_first_appended: "i \<notin> ids ds \<Longrightarrow> doc_id d = i \<Longrightarrow> remove_first i (ds @ [d]) = ds"
  by (induction ds) (auto simp: ids_def)

lemma validation_doc_id [simp]: "doc_id (validation_doc s) = doc_id s"
  by (simp add: validation_doc_def)

lemma update_other_fields:
  "filter (\<lambda>kv. fst kv \<noteq> k) (AList.update k v al) = filter (\<lambda>kv. fst kv \<noteq> k) al"
  by (induction al) auto

lemma validation_doc_lookup:
  "map_of (doc_fields (validation_doc s)) = (map_of (doc_fields s))(''_validationTest'' \<mapsto> JBool True)"
  by (simp add: validation_doc_def update_conv')

lemma validation_doc_other_fields:
  "filter (\<lambda>kv. fst kv \<noteq> ''_validationTest'') (doc_fields (validation_doc s)) =
   filter (\<lambda>kv. fst kv \<noteq> ''_validationTest'') (doc_fields s)"
  by (simp add: validation_doc_def update_other_fields)

lemma world_log_eq: "w\<lparr>target_ops := target_ops w @ [a, b]\<rparr> = log_op b (log_op a w)"
  by (simp add: log_op_def)

lemma schema_probe_duplicate:
  assumes "findOne w name q = Some s" and "doc_id s \<in> ids (docs (target w name))"
  shows "schema_probe name q w = (Inl DuplicateKey, log_op (OpInsertOne name (validation_doc s)) w)"
  using assms by (simp add: schema_probe_def insertOne_def Let_def)

lemma schema_probe_rejected:
  assumes "findOne w name q = Some s" and "doc_id s \<notin> ids (docs (target w name))"
    and "\<not> validator (target w name) (validation_doc s)"
  shows "schema_probe name q w =
           (Inl DocumentValidationFailure, log_op (OpInsertOne name (validation_doc s)) w)"
  using assms by (simp add: schema_probe_def insertOne_def Let_def)

lemma schema_probe_passes:
  assumes "findOne w name q = Some s" and "doc_id s \<notin> ids (docs (target w name))"
    and "validator (target w name) (validation_doc s)"
  shows "schema_probe name q w =
           (Inr (), log_op (OpDeleteOne name (doc_id s)) (log_op (OpInsertOne name (validation_doc s)) w))"
proof -
  let ?w1 = "log_op (OpInsertOne name (validation_doc s)) w"
  let ?w2 = "set_docs name (docs (target w name) @ [validation_doc s]) ?w1"
  have ins: "insertOne name (validation_doc s) w = (Inr (doc_id s), ?w2)"
    using assms by (simp add: insertOne_def Let_def)
  have "deleteOne name (doc_id s) ?w2 = log_op (OpDeleteOne name (doc_id s)) ?w1"
    using assms(2) by (simp add: deleteOne_def set_docs_def log_op_def remove_first_appended)
  with ins assms(1) show ?thesis by (simp add: schema_probe_def)
qed

lemma schema_probe_ok_target:
  assumes "schema_probe name q w = (Inr u, w')"
  shows "target w' = target w \<and> data_files w' = data_files w \<and> index_files w' = index_files w"
proof (cases "findOne w name q")
  case None
  with assms show ?thesis by (simp add: schema_probe_def)
next
  case (Some s)
  show ?thesis
  proof (cases "doc_id s \<in> ids (docs (target w name))")
    case True
    from schema_probe_duplicate [OF Some True] assms show ?thesis by simp
  next
    case False
    show ?thesis
    proof (cases "validator (target w name) (validation_doc s)")
      case True
      from schema_probe_passes [OF Some False True] assms show ?thesis by auto
    next
      case nv: False
      from schema_probe_rejected [OF Some False nv] assms show ?thesis by simp
    qed
  qed
qed

lemma run_probe_ok_target:
  "run_probe cfg name q w = (Inr u, w') \<Longrightarrow>
   target w' = target w \<and> data_files w' = data_files w \<and> index_files w' = index_files w"
  by (auto simp: run_probe_def split: if_splits dest: schema_probe_ok_target)

lemma findOne_count: "findOne w name q = Some s \<Longrightarrow> 0 < countDocuments w name q"
  by (auto simp: findOne_def countDocuments_def find_Some_iff filter_empty_conv)

subsection \<open>Connections and dry runs\<close>

lemma connections_closed_once:
  assumes "reachable (sourceClient w)" and "reachable (targetClient w)"
    and "copyCollections cfg w = Some (r, w')"
  shows "sourceClient w' = close ((sourceClient w)\<lparr>connected := True\<rparr>) \<and>
         targetClient w' = close ((targetClient w)\<lparr>connected := True\<rparr>)"
proof -
  let ?w2 = "w\<lparr>sourceClient := (sourceClient w)\<lparr>connected := True\<rparr>,
               targetClient := (targetClient w)\<lparr>connected := True\<rparr>\<rparr>"
  from assms obtain w3 where
    loop: "copy_loop cfg (resolve_collections (collections cfg) (map fst (source ?w2))) [] ?w2 = Some (r, w3)"
    and w': "w' = close_both w3"
    by (auto simp: copyCollections_def connect_def Let_def split: option.splits)
  from copy_loop_source [OF loop] w' show ?thesis
    by (simp add: close_both_def)
qed

lemma dry_run_collection:
  assumes "dryRun cfg"
  shows "process_collection cfg name w =
     Some (Inr (mk_result name 0 (countDocuments w name (build_query cfg))
                  (if countDocuments w name (build_query cfg) = 0
                   then (if incremental cfg then ''no-new-docs'' else ''empty'')
                   else ''dry-run'')), w)"
  using assms by (simp add: process_collection_def run_probe_def Let_def)

lemma dry_run_loop:
  assumes "dryRun cfg"
  shows "copy_loop cfg names summary w =
     Some (Inr (summary @ map (\<lambda>name. mk_result name 0 (countDocuments w name (build_query cfg))
                  (if countDocuments w name (build_query cfg) = 0
                   then (if incremental cfg then ''no-new-docs'' else ''empty'')
                   else ''dry-run'')) names), w)"
proof (induction names arbitrary: summary)
  case Nil
  show ?case by simp
next
  case (Cons name rest)
  show ?case by (simp add: dry_run_collection [OF assms] Cons.IH)
qed

subsection \<open>Batches\<close>

lemma fill_batch_take_drop:
  "fill_batch i b cursor batch = (batch @ take (b - i) cursor, drop (b - i) cursor)"
proof (induction cursor arbitrary: i batch)
  case Nil
  show ?case by simp
next
  case (Cons d cursor)
  show ?case
  proof (cases "i < b")
    case True
    then have "b - i = Suc (b - Suc i)" by simp
    with True Cons.IH [of "Suc i" "batch @ [d]"] show ?thesis by simp
  next
    case False
    then show ?thesis by simp
  qed
qed

lemma full_copy_loop_step:
  assumes "0 < b"
  shows "full_copy_loop b name cursor copied w =
     (if cursor = [] then Some (Inr copied, w)
      else case insertMany name (take b cursor) w of
             (Inl err, w') \<Rightarrow> Some (Inl err, w')
           | (Inr u, w') \<Rightarrow> full_copy_loop b name (drop b cursor) (copied + length (take b cursor)) w')"
proof (cases "cursor = []")
  case True
  then show ?thesis by (subst full_copy_loop.simps) simp
next
  case False
  with assms have "take b cursor \<noteq> []" by (cases cursor) auto
  with False show ?thesis
    by (subst full_copy_loop.simps) (simp add: fill_batch_take_drop)
qed

lemma full_copy_loop_returns:
  assumes "0 < b"
  shows "\<exists>y. full_copy_loop b name cursor copied w = Some y"
proof (induction "length cursor" arbitrary: cursor copied w rule: less_induct)
  case less
  show ?case
  proof (cases "cursor = []")
    case True
    then show ?thesis by (simp add: full_copy_loop_step [OF assms])
  next
    case False
    with assms have "length (drop b cursor) < length cursor" by simp
    from less [OF this] False show ?thesis
      by (simp add: full_copy_loop_step [OF assms] split: prod.splits sum.splits)
  qed
qed

lemma insertMany_log:
  "batch \<noteq> [] \<Longrightarrow> insertMany name batch w = (r, w') \<Longrightarrow>
   target_ops w' = target_ops w @ [OpInsertMany name batch]"
  by (auto simp: insertMany_def Let_def split: prod.splits)

lemma bulkWrite_log:
  "batch \<noteq> [] \<Longrightarrow> bulkWrite name batch w = (r, w') \<Longrightarrow>
   target_ops w' = target_ops w @ [OpBulkWrite name batch]"
  by (auto simp: bulkWrite_def Let_def split: prod.splits)

lemma batch_shape_Nil [simp]: "batch_shape b []"
  by (simp add: batch_shape_def)

lemma batch_shape_Cons:
  assumes "batch_shape b batches" and "0 < length B" and "length B \<le> b"
    and "batches \<noteq> [] \<Longrightarrow> length B = b"
  shows "batch_shape b (B # batches)"
  using assms by (auto simp: batch_shape_def)

lemma batch_shape_concat_nonempty:
  "batch_shape b batches \<Longrightarrow> batches \<noteq> [] \<Longrightarrow> concat batches \<noteq> []"
proof -
  assume s: "batch_shape b batches" and ne: "batches \<noteq> []"
  then have "last batches \<noteq> []" by (auto simp: batch_shape_def)
  moreover from ne have "last batches \<in> set batches" by simp
  ultimately show ?thesis by auto
qed

lemma full_copy_loop_batches:
  assumes "0 < b"
  shows "full_copy_loop b name cursor copied w = Some (Inr copied', w') \<Longrightarrow>
     copied' = copied + length cursor \<and>
     (\<exists>batches. batch_shape b batches \<and> concat batches = cursor \<and>
        target_ops w' = target_ops w @ map (OpInsertMany name) batches)"
proof (induction "length cursor" arbitrary: cursor copied w rule: less_induct)
  case less
  show ?case
  proof (cases "cursor = []")
    case True
    with less.prems have "copied' = copied" "w' = w"
      by (simp_all add: full_copy_loop_step [OF assms])
    with True show ?thesis by (intro conjI exI [of _ "[]"]) simp_all
  next
    case False
    with assms have ne: "take b cursor \<noteq> []" by (cases cursor) auto
    obtain r w1 where ins: "insertMany name (take b cursor) w = (r, w1)"
      by (cases "insertMany name (take b cursor) w")
    with less.prems False obtain u where r: "r = Inr u"
      by (cases r) (simp_all add: full_copy_loop_step [OF assms])
    with less.prems False ins have rec:
      "full_copy_loop b name (drop b cursor) (copied + length (take b cursor)) w1 = Some (Inr copied', w')"
      by (simp add: full_copy_loop_step [OF assms])
    from False assms have "length (drop b cursor) < length cursor" by simp
    from less.hyps [OF this rec] obtain batches where
      c: "copied' = copied + length (take b cursor) + length (drop b cursor)"
      and sh: "batch_shape b batches" and cc: "concat batches = drop b cursor"
      and ops: "target_ops w' = target_ops w1 @ map (OpInsertMany name) batches"
      by auto
    have "batch_shape b (take b cursor # batches)"
    proof (rule batch_shape_Cons [OF sh])
      show "0 < length (take b cursor)" using ne by simp
      show "length (take b cursor) \<le> b" by simp
      assume "batches \<noteq> []"
      from batch_shape_concat_nonempty [OF sh this] cc have "drop b cursor \<noteq> []" by simp
      then show "length (take b cursor) = b" by simp
    qed
    moreover have "concat (take b cursor # batches) = cursor" using cc by simp
    moreover have "target_ops w' = target_ops w @ map (OpInsertMany name) (take b cursor # batches)"
      using ops insertMany_log [OF ne ins] by simp
    moreover have "copied' = copied + length cursor" using c by (simp add: min_def)
    ultimately show ?thesis by blast
  qed
qed


lemma incremental_loop_batches:
  assumes "0 < b"
  shows "length batch < b \<Longrightarrow>
     incremental_loop b name cursor batch copied w = (Inr (rest, copied'), w') \<Longrightarrow>
     \<exists>full. (\<forall>B \<in> set full. length B = b) \<and> concat full @ rest = batch @ cursor \<and>
        length rest < b \<and> copied' = copied + length (concat full) \<and>
        target_ops w' = target_ops w @ map (OpBulkWrite name) full"
proof (induction b name cursor batch copied w rule: incremental_loop.induct)
  case (1 b name batch copied w)
  then show ?case by (intro exI [of _ "[]"]) simp
next
  case (2 b name d cursor batch copied w)
  show ?case
  proof (cases "b \<le> length (batch @ [d])")
    case True
    with "2.prems"(1) have len: "length (batch @ [d]) = b" by simp
    obtain r w1 where bw: "bulkWrite name (batch @ [d]) w = (r, w1)"
      by (cases "bulkWrite name (batch @ [d]) w")
    with "2.prems"(2) True obtain u where r: "r = Inr u"
      by (cases r) simp_all
    with "2.prems"(2) True bw have rec:
      "incremental_loop b name cursor [] (copied + length (batch @ [d])) w1 = (Inr (rest, copied'), w')"
      by simp
    have "length ([]::doc list) < b" using len by auto
    from "2.IH"(1) [OF True bw [symmetric] r this rec] obtain full where
      f: "\<forall>B \<in> set full. length B = b" "concat full @ rest = cursor" "length rest < b"
        "copied' = copied + length (batch @ [d]) + length (concat full)"
        "target_ops w' = target_ops w1 @ map (OpBulkWrite name) full"
      by auto
    from bulkWrite_log [OF _ bw] have "target_ops w1 = target_ops w @ [OpBulkWrite name (batch @ [d])]"
      by simp
    with f len show ?thesis
      by (intro exI [of _ "(batch @ [d]) # full"]) simp
  next
    case False
    with "2.prems"(2) have rec:
      "incremental_loop b name cursor (batch @ [d]) copied w = (Inr (rest, copied'), w')"
      by simp
    from False have "length (batch @ [d]) < b" by simp
    from "2.IH"(2) [OF False this rec] show ?thesis by simp
  qed
qed

lemma concat_full_length:
  "(\<forall>B \<in> set full. length B = b) \<Longrightarrow> length (concat full) = length full * b"
  by (induction full) simp_all

lemma batch_shape_full_rest:
  assumes "\<forall>B \<in> set full. length B = b" and "0 < b" and "length rest < b"
  shows "batch_shape b (if rest = [] then full else full @ [rest])"
proof (cases "rest = []")
  case True
  with assms(1,2) show ?thesis
    by (auto simp: batch_shape_def dest: in_set_butlastD)
next
  case False
  with assms show ?thesis by (auto simp: batch_shape_def)
qed

lemma incremental_copy_batches:
  assumes "0 < b" and "incremental_copy b name cursor w = (Inr copied, w')"
  shows "copied = length cursor \<and>
     (\<exists>batches. batch_shape b batches \<and> concat batches = cursor \<and>
        target_ops w' = target_ops w @ map (OpBulkWrite name) batches)"
proof -
  obtain r w1 where lp: "incremental_loop b name cursor [] 0 w = (r, w1)"
    by (cases "incremental_loop b name cursor [] 0 w")
  with assms(2) obtain rest c where r: "r = Inr (rest, c)"
    by (cases r) (auto simp: incremental_copy_def)
  from incremental_loop_batches [OF assms(1) _ lp [unfolded r]] assms(1) obtain full where
    f: "\<forall>B \<in> set full. length B = b" "concat full @ rest = cursor" "length rest < b"
      "c = length (concat full)" "target_ops w1 = target_ops w @ map (OpBulkWrite name) full"
    by auto
  let ?batches = "if rest = [] then full else full @ [rest]"
  have sh: "batch_shape b ?batches" using batch_shape_full_rest [OF f(1) assms(1) f(3)] .
  have cc: "concat ?batches = cursor" using f(2) by auto
  show ?thesis
  proof (cases "rest = []")
    case True
    with assms(2) lp r have "copied = c" "w' = w1" by (simp_all add: incremental_copy_def)
    with f sh cc True show ?thesis by auto
  next
    case False
    obtain r2 w2 where bw: "bulkWrite name rest w1 = (r2, w2)"
      by (cases "bulkWrite name rest w1")
    with assms(2) lp r False obtain u where "r2 = Inr u" "copied = c + length rest" "w' = w2"
      by (cases r2) (auto simp: incremental_copy_def)
    moreover from bulkWrite_log [OF False bw] f(5)
    have "target_ops w2 = target_ops w @ map (OpBulkWrite name) ?batches"
      using False by simp
    moreover have "c + length rest = length cursor" using f(2,4) by (metis length_append)
    ultimately show ?thesis using sh cc by blast
  qed
qed

lemma batch_shape_count:
  assumes "0 < b" and "batch_shape b batches"
  shows "length batches = (length (concat batches) + b - 1) div b"
proof (cases "batches = []")
  case True
  with assms(1) show ?thesis by simp
next
  case False
  then obtain full l where bs: "batches = full @ [l]"
    by (metis append_butlast_last_id)
  with assms(2) have full: "\<forall>B \<in> set full. length B = b" and l: "0 < length l" "length l \<le> b"
    by (auto simp: batch_shape_def)
  have "length (concat batches) = length full * b + length l"
    using bs concat_full_length [OF full] by simp
  with l(1) have "length (concat batches) + b - 1 = length full * b + (length l + b - 1)"
    by arith
  moreover have "(length l + b - 1) div b = 1"
  proof -
    have e: "length l + b - 1 = (length l - 1) + b" using l(1) by arith
    have "length l - 1 < b" using l by arith
    then have "(length l - 1) div b = 0" by simp
    then show ?thesis unfolding e using assms(1) by (simp add: div_add_self2)
  qed
  ultimately have "(length (concat batches) + b - 1) div b = length full + 1"
    using assms(1) by (simp only: div_mult_self3)
  with bs show ?thesis by simp
qed

subsection \<open>The full copy\<close>

lemma insert_each_all:
  "insert_each v batch ds = (ds', 0) \<Longrightarrow> ds' = ds @ batch"
proof (induction batch arbitrary: ds)
  case Nil
  then show ?case by simp
next
  case (Cons d batch)
  from Cons.prems have acc: "\<not> (doc_id d \<in> ids ds \<or> \<not> v d)"
    by (auto split: prod.splits if_splits)
  with Cons.prems have "insert_each v batch (ds @ [d]) = (ds', 0)" by simp
  from Cons.IH [OF this] show ?case by simp
qed

lemma insertMany_ok:
  assumes "insertMany name batch w = (Inr u, w')"
  shows "docs (target w' name) = docs (target w name) @ batch"
  using assms
  by (auto simp: insertMany_def Let_def split: if_splits prod.splits dest: insert_each_all)

lemma full_copy_loop_docs_snd:
  assumes "full_copy_loop b name cursor copied w = Some y"
  shows "\<forall>c w'. y = (Inr c, w') \<longrightarrow>
     c = copied + length cursor \<and>
     docs (target w' name) = docs (target w name) @ cursor \<and>
     (\<exists>batches. concat batches = cursor \<and>
        target_ops w' = target_ops w @ map (OpInsertMany name) batches)"
  using assms
proof (induction rule: full_copy_loop.raw_induct [rotated 1, consumes 1])
  case (1 loop b name cursor copied w y)
  show ?case
  proof (cases "cursor = []")
    case True
    with 1(2) have "y = (Inr copied, w)" by simp
    with True show ?thesis by (auto intro: exI [of _ "[]"])
  next
    case False
    have fb: "fill_batch 0 b cursor [] = (take b cursor, drop b cursor)"
      by (simp add: fill_batch_take_drop)
    show ?thesis
    proof (cases "take b cursor = []")
      case True
      with False have d: "drop b cursor = cursor" by (cases b) simp_all
      from 1(2) False True fb d have "loop b name cursor copied w = Some y" by simp
      from 1(1) [OF this] show ?thesis .
    next
      case ne: False
      obtain r w1 where ins: "insertMany name (take b cursor) w = (r, w1)"
        by (cases "insertMany name (take b cursor) w")
      show ?thesis
      proof (cases r)
        case (Inl err)
        with 1(2) False ne fb ins have "y = (Inl err, w1)" by simp
        then show ?thesis by simp
      next
        case (Inr u)
        with 1(2) False ne fb ins have
          rec: "loop b name (drop b cursor) (copied + length (take b cursor)) w1 = Some y"
          by simp
        from insertMany_ok [OF ins [unfolded Inr]] insertMany_log [OF ne ins]
        have d1: "docs (target w1 name) = docs (target w name) @ take b cursor"
          and l1: "target_ops w1 = target_ops w @ [OpInsertMany name (take b cursor)]"
          by simp_all
        show ?thesis
        proof (intro allI impI)
          fix c w'
          assume y: "y = (Inr c, w')"
          with 1(1) [OF rec] obtain batches where
            c: "c = copied + length (take b cursor) + length (drop b cursor)"
            and d: "docs (target w' name) = docs (target w1 name) @ drop b cursor"
            and cc: "concat batches = drop b cursor"
            and ops: "target_ops w' = target_ops w1 @ map (OpInsertMany name) batches"
            by auto
          have "c = copied + length cursor" using c by (simp add: min_def)
          moreover have "docs (target w' name) = docs (target w name) @ cursor"
            using d d1 by simp
          moreover have "concat (take b cursor # batches) = cursor" using cc by simp
          moreover have "target_ops w' = target_ops w @ map (OpInsertMany name) (take b cursor # batches)"
            using ops l1 by simp
          ultimately show "c = copied + length cursor \<and>
             docs (target w' name) = docs (target w name) @ cursor \<and>
             (\<exists>batches. concat batches = cursor \<and>
                target_ops w' = target_ops w @ map (OpInsertMany name) batches)"
            by blast
        qed
      qed
    qed
  qed
qed

lemma full_copy_loop_docs:
  assumes "full_copy_loop b name cursor copied w = Some (Inr c, w')"
  shows "c = copied + length cursor"
    and "docs (target w' name) = docs (target w name) @ cursor"
    and "\<exists>batches. concat batches = cursor \<and>
           target_ops w' = target_ops w @ map (OpInsertMany name) batches"
  using full_copy_loop_docs_snd [OF assms] by simp_all

lemma createIndex_keeps:
  "docs (target (snd (createIndex name idx w)) n) = docs (target w n)"
  "target_ops (snd (createIndex name idx w)) = target_ops w @ [OpCreateIndex name idx]"
  by (simp_all add: createIndex_def Let_def)

lemma create_indexes_keeps:
  "docs (target (create_indexes name ixs w) n) = docs (target w n) \<and>
   target_ops (create_indexes name ixs w) = target_ops w @ map (\<lambda>i. OpCreateIndex name (strip_internal i)) ixs"
  by (induction ixs arbitrary: w) (simp_all add: createIndex_keeps)

lemma copyIndexesToTarget_keeps:
  "docs (target (copyIndexesToTarget name ixs w) n) = docs (target w n)"
  "\<exists>created. target_ops (copyIndexesToTarget name ixs w) = target_ops w @ map (OpCreateIndex name) created"
proof -
  show "docs (target (copyIndexesToTarget name ixs w) n) = docs (target w n)"
    by (simp add: copyIndexesToTarget_def create_indexes_keeps)
  have "target_ops (copyIndexesToTarget name ixs w) =
      target_ops w @ map (OpCreateIndex name) (map strip_internal (filter (\<lambda>idx. idx_name idx \<noteq> ''_id_'') ixs))"
    by (simp add: copyIndexesToTarget_def create_indexes_keeps comp_def)
  then show "\<exists>created. target_ops (copyIndexesToTarget name ixs w) = target_ops w @ map (OpCreateIndex name) created"
    by blast
qed

lemma schema_probe_ok_log:
  assumes "schema_probe name q w = (Inr u, w')"
  shows "target_ops w' = target_ops w \<or>
         (\<exists>d. target_ops w' = target_ops w @ [OpInsertOne name d, OpDeleteOne name (doc_id d)])"
proof (cases "findOne w name q")
  case None
  with assms show ?thesis by (simp add: schema_probe_def)
next
  case (Some s)
  show ?thesis
  proof (cases "doc_id s \<in> ids (docs (target w name))")
    case True
    from schema_probe_duplicate [OF Some True] assms show ?thesis by simp
  next
    case False
    show ?thesis
    proof (cases "validator (target w name) (validation_doc s)")
      case True
      from schema_probe_passes [OF Some False True] assms
      have "target_ops w' = target_ops w @ [OpInsertOne name (validation_doc s), OpDeleteOne name (doc_id (validation_doc s))]"
        by auto
      then show ?thesis by blast
    next
      case nv: False
      from schema_probe_rejected [OF Some False nv] assms show ?thesis by simp
    qed
  qed
qed

lemma run_probe_ok_log:
  "run_probe cfg name q w = (Inr u, w') \<Longrightarrow>
   target_ops w' = target_ops w \<or>
   (\<exists>d. target_ops w' = target_ops w @ [OpInsertOne name d, OpDeleteOne name (doc_id d)])"
  by (auto simp: run_probe_def split: if_splits dest: schema_probe_ok_log)

lemma import_collection_status:
  "import_collection cfg name w = Some (Inr r, w') \<Longrightarrow>
   res_status r \<in> {''no-json-file'', ''json-empty'', ''imported-json''}"
  by (auto simp: import_collection_def Let_def
      split: option.splits json_file.splits if_splits prod.splits sum.splits)

subsection \<open>Upserts\<close>

lemma ids_simps [simp]:
  "ids [] = {}"
  "ids (d # ds) = insert (doc_id d) (ids ds)"
  "ids (xs @ ys) = ids xs \<union> ids ys"
  by (auto simp: ids_def)

lemma replace_first_ids [simp]: "map doc_id (replace_first r ds) = map doc_id ds"
  by (induction ds) simp_all

lemma ids_replace_first [simp]: "ids (replace_first r ds) = ids ds"
  by (metis ids_def replace_first_ids set_map)

lemma replace_first_absent: "doc_id r \<notin> ids ds \<Longrightarrow> replace_first r ds = ds"
  by (induction ds) auto

lemma ids_upsert [simp]: "ids (upsert d ds) = insert (doc_id d) (ids ds)"
  by (auto simp: upsert_def)

lemma upsert_each_fold:
  "upsert_each v batch ds = (fold upsert (filter v batch) ds, length (filter (\<lambda>d. \<not> v d) batch))"
  by (induction batch arbitrary: ds) simp_all

lemma ids_fold_upsert [simp]: "ids (fold upsert xs ds) = ids ds \<union> ids xs"
  by (induction xs arbitrary: ds) auto

lemma replace_first_outside:
  "doc_id r \<in> S \<Longrightarrow>
   filter (\<lambda>x. doc_id x \<notin> S) (replace_first r ds) = filter (\<lambda>x. doc_id x \<notin> S) ds"
  by (induction ds) auto

lemma upsert_outside:
  "doc_id d \<in> S \<Longrightarrow> filter (\<lambda>x. doc_id x \<notin> S) (upsert d ds) = filter (\<lambda>x. doc_id x \<notin> S) ds"
  by (simp add: upsert_def replace_first_outside)

lemma fold_upsert_outside:
  "ids xs \<subseteq> S \<Longrightarrow>
   filter (\<lambda>x. doc_id x \<notin> S) (fold upsert xs ds) = filter (\<lambda>x. doc_id x \<notin> S) ds"
  by (induction xs arbitrary: ds) (simp_all add: upsert_outside)

lemma replace_first_commute:
  "doc_id y \<noteq> doc_id d \<Longrightarrow>
   replace_first y (replace_first d t) = replace_first d (replace_first y t)"
  by (induction t) auto

lemma replace_first_append_other:
  "doc_id y \<noteq> doc_id d \<Longrightarrow> replace_first d (t @ [y]) = replace_first d t @ [y]"
  by (induction t) auto

lemma replace_first_same_id:
  "doc_id y = doc_id d \<Longrightarrow> replace_first y (replace_first d t) = replace_first y t"
  by (induction t) auto

lemma upsert_replace_other:
  "doc_id y \<noteq> doc_id d \<Longrightarrow> upsert y (replace_first d t) = replace_first d (upsert y t)"
  by (simp add: upsert_def replace_first_commute replace_first_append_other)

lemma upsert_replace_same:
  "doc_id y = doc_id d \<Longrightarrow> upsert y (replace_first d t) = upsert y t"
  by (auto simp: upsert_def replace_first_same_id replace_first_absent)

lemma fold_upsert_overwrites:
  "doc_id d \<in> ids ys \<Longrightarrow> fold upsert ys (replace_first d t) = fold upsert ys t"
proof (induction ys arbitrary: t)
  case Nil
  then show ?case by simp
next
  case (Cons y ys)
  show ?case
  proof (cases "doc_id y = doc_id d")
    case True
    then show ?thesis by (simp add: upsert_replace_same)
  next
    case False
    with Cons.prems have "doc_id d \<in> ids ys" by auto
    from Cons.IH [OF this] False show ?thesis by (simp add: upsert_replace_other)
  qed
qed

lemma fold_upsert_passes:
  "doc_id d \<notin> ids ys \<Longrightarrow> fold upsert ys (replace_first d t) = replace_first d (fold upsert ys t)"
proof (induction ys arbitrary: t)
  case Nil
  then show ?case by simp
next
  case (Cons y ys)
  then have "doc_id y \<noteq> doc_id d" "doc_id d \<notin> ids ys" by auto
  with Cons.IH show ?case by (simp add: upsert_replace_other)
qed

lemma replace_first_appended_same: "doc_id d \<notin> ids s \<Longrightarrow> replace_first d (s @ [d]) = s @ [d]"
  by (induction s) auto

lemma replace_first_upsert: "replace_first d (upsert d s) = upsert d s"
  by (simp add: upsert_def replace_first_same_id replace_first_appended_same)

lemma fold_upsert_idem: "fold upsert xs (fold upsert xs s) = fold upsert xs s"
proof (induction xs arbitrary: s)
  case Nil
  show ?case by simp
next
  case (Cons d ys)
  let ?u = "upsert d s"
  let ?t = "fold upsert ys ?u"
  have IH: "fold upsert ys ?t = ?t" using Cons.IH .
  have "doc_id d \<in> ids ?t" by simp
  then have up: "upsert d ?t = replace_first d ?t" by (simp add: upsert_def)
  have "fold upsert ys (replace_first d ?t) = ?t"
  proof (cases "doc_id d \<in> ids ys")
    case True
    from fold_upsert_overwrites [OF True] IH show ?thesis by simp
  next
    case False
    from fold_upsert_passes [OF False] have "replace_first d ?t = fold upsert ys (replace_first d ?u)"
      by simp
    also have "\<dots> = ?t" by (simp add: replace_first_upsert)
    finally have "replace_first d ?t = ?t" .
    with IH show ?thesis by simp
  qed
  with up show ?case by simp
qed

lemma upserted_Nil: "upserted name [] w w' \<longleftrightarrow> target w' = target w"
  by (simp add: upserted_def)

lemma upserted_trans:
  "upserted name xs w w1 \<Longrightarrow> upserted name ys w1 w2 \<Longrightarrow> upserted name (xs @ ys) w w2"
  by (simp add: upserted_def)

lemma upserted_target_cong:
  "target w1 = target w \<Longrightarrow> upserted name xs w1 w2 \<Longrightarrow> upserted name xs w w2"
  by (simp add: upserted_def)

lemma upserted_validator:
  "upserted name xs w w' \<Longrightarrow> validator (target w' n) = validator (target w n)"
  by (simp add: upserted_def)

lemma upserted_docs:
  "upserted name xs w w' \<Longrightarrow> docs (target w' name) = fold upsert xs (docs (target w name))"
  by (simp add: upserted_def)

lemma bulkWrite_upserted:
  assumes "bulkWrite name batch w = (r, w')"
  shows "upserted name (filter (validator (target w name)) batch) w w'"
  using assms
  by (auto simp: bulkWrite_def Let_def upsert_each_fold upserted_def set_docs_def log_op_def
      split: if_splits)

lemma bulkWrite_result:
  assumes "bulkWrite name batch w = (r, w')"
  shows "(\<exists>u. r = Inr u) \<longleftrightarrow> batch \<noteq> [] \<and> (\<forall>d \<in> set batch. validator (target w name) d)"
  using assms
  by (auto simp: bulkWrite_def Let_def upsert_each_fold filter_empty_conv split: if_splits)

lemma bulkWrite_ok:
  assumes "bulkWrite name batch w = (Inr u, w')"
  shows "upserted name batch w w'" and "\<forall>d \<in> set batch. validator (target w name) d" and "batch \<noteq> []"
proof -
  from bulkWrite_result [OF assms] show all: "\<forall>d \<in> set batch. validator (target w name) d"
    and "batch \<noteq> []" by auto
  then have "filter (validator (target w name)) batch = batch" by simp
  with bulkWrite_upserted [OF assms] show "upserted name batch w w'" by simp
qed

lemma incremental_loop_any:
  "incremental_loop b name cursor batch copied w = (r, w') \<Longrightarrow>
   \<exists>xs. set xs \<subseteq> set (batch @ cursor) \<and> upserted name xs w w'"
proof (induction b name cursor batch copied w rule: incremental_loop.induct)
  case (1 b name batch copied w)
  then show ?case by (auto simp: upserted_Nil intro!: exI [of _ "[]"])
next
  case (2 b name d cursor batch copied w)
  show ?case
  proof (cases "b \<le> length (batch @ [d])")
    case True
    obtain r1 w1 where bw: "bulkWrite name (batch @ [d]) w = (r1, w1)"
      by (cases "bulkWrite name (batch @ [d]) w")
    let ?xs = "filter (validator (target w name)) (batch @ [d])"
    have u1: "upserted name ?xs w w1" using bulkWrite_upserted [OF bw] .
    show ?thesis
    proof (cases r1)
      case (Inl err)
      with "2.prems" True bw have "w' = w1" by simp
      with u1 show ?thesis by (intro exI [of _ ?xs]) auto
    next
      case (Inr u)
      with "2.prems" True bw have
        "incremental_loop b name cursor [] (copied + length (batch @ [d])) w1 = (r, w')" by simp
      from "2.IH"(1) [OF True bw [symmetric] Inr this] obtain ys where
        ys: "set ys \<subseteq> set cursor" "upserted name ys w1 w'" by auto
      from upserted_trans [OF u1 ys(2)] ys(1) show ?thesis
        by (intro exI [of _ "?xs @ ys"]) auto
    qed
  next
    case False
    with "2.prems" have "incremental_loop b name cursor (batch @ [d]) copied w = (r, w')" by simp
    from "2.IH"(2) [OF False this] show ?thesis by simp
  qed
qed

lemma incremental_loop_ok:
  "incremental_loop b name cursor batch copied w = (Inr (rest, c), w') \<Longrightarrow>
   \<exists>xs. xs @ rest = batch @ cursor \<and> (\<forall>d \<in> set xs. validator (target w name) d) \<and>
        upserted name xs w w'"
proof (induction b name cursor batch copied w rule: incremental_loop.induct)
  case (1 b name batch copied w)
  then show ?case by (auto simp: upserted_Nil intro!: exI [of _ "[]"])
next
  case (2 b name d cursor batch copied w)
  show ?case
  proof (cases "b \<le> length (batch @ [d])")
    case True
    obtain r1 w1 where bw: "bulkWrite name (batch @ [d]) w = (r1, w1)"
      by (cases "bulkWrite name (batch @ [d]) w")
    with "2.prems" True obtain u where r1: "r1 = Inr u" by (cases r1) simp_all
    with "2.prems" True bw have
      "incremental_loop b name cursor [] (copied + length (batch @ [d])) w1 = (Inr (rest, c), w')"
      by simp
    from "2.IH"(1) [OF True bw [symmetric] r1 this] obtain ys where
      ys: "ys @ rest = cursor" "\<forall>d \<in> set ys. validator (target w1 name) d" "upserted name ys w1 w'"
      by auto
    note ok = bulkWrite_ok [OF bw [unfolded r1]]
    from upserted_validator [OF ok(1)] ys(2)
    have "\<forall>d \<in> set ys. validator (target w name) d" by simp
    with ok(2) ys(1) upserted_trans [OF ok(1) ys(3)] show ?thesis
      by (intro exI [of _ "(batch @ [d]) @ ys"]) auto
  next
    case False
    with "2.prems" have "incremental_loop b name cursor (batch @ [d]) copied w = (Inr (rest, c), w')"
      by simp
    from "2.IH"(2) [OF False this] show ?thesis by simp
  qed
qed

lemma incremental_loop_accepts:
  "\<forall>d \<in> set (batch @ cursor). validator (target w name) d \<Longrightarrow>
   \<exists>rest c w'. incremental_loop b name cursor batch copied w = (Inr (rest, c), w')"
proof (induction b name cursor batch copied w rule: incremental_loop.induct)
  case (1 b name batch copied w)
  then show ?case by simp
next
  case (2 b name d cursor batch copied w)
  show ?case
  proof (cases "b \<le> length (batch @ [d])")
    case True
    obtain r1 w1 where bw: "bulkWrite name (batch @ [d]) w = (r1, w1)"
      by (cases "bulkWrite name (batch @ [d]) w")
    from bulkWrite_result [OF bw] "2.prems" obtain u where r1: "r1 = Inr u" by auto
    from upserted_validator [OF bulkWrite_ok(1) [OF bw [unfolded r1]]] "2.prems"
    have "\<forall>d \<in> set ([] @ cursor). validator (target w1 name) d" by simp
    from "2.IH"(1) [OF True bw [symmetric] r1 this] True bw r1 show ?thesis by simp
  next
    case False
    from "2.prems" have "\<forall>x \<in> set ((batch @ [d]) @ cursor). validator (target w name) x" by simp
    from "2.IH"(2) [OF False this] False show ?thesis by simp
  qed
qed

lemma incremental_copy_any:
  assumes "incremental_copy b name cursor w = (r, w')"
  shows "\<exists>xs. set xs \<subseteq> set cursor \<and> upserted name xs w w'"
proof -
  obtain r1 w1 where lp: "incremental_loop b name cursor [] 0 w = (r1, w1)"
    by (cases "incremental_loop b name cursor [] 0 w")
  from incremental_loop_any [OF lp] obtain xs where
    xs: "set xs \<subseteq> set cursor" "upserted name xs w w1" by auto
  show ?thesis
  proof (cases r1)
    case (Inl err)
    with assms lp have "w' = w1" by (simp add: incremental_copy_def)
    with xs show ?thesis by blast
  next
    case (Inr p)
    obtain rest c where p: "p = (rest, c)" by (cases p)
    from incremental_loop_ok [OF lp [unfolded Inr p]] have rest: "set rest \<subseteq> set cursor" by auto
    show ?thesis
    proof (cases "rest = []")
      case True
      with assms lp Inr p have "w' = w1" by (simp add: incremental_copy_def)
      with xs show ?thesis by blast
    next
      case False
      obtain r2 w2 where bw: "bulkWrite name rest w1 = (r2, w2)" by (cases "bulkWrite name rest w1")
      with assms lp Inr p False have "w' = w2" by (cases r2) (simp_all add: incremental_copy_def)
      with upserted_trans [OF xs(2) bulkWrite_upserted [OF bw]] xs(1) rest show ?thesis
        by (intro exI [of _ "xs @ filter (validator (target w1 name)) rest"]) auto
    qed
  qed
qed

lemma incremental_copy_ok:
  assumes "incremental_copy b name cursor w = (Inr c, w')"
  shows "upserted name cursor w w'" and "\<forall>d \<in> set cursor. validator (target w name) d"
proof -
  obtain r1 w1 where lp: "incremental_loop b name cursor [] 0 w = (r1, w1)"
    by (cases "incremental_loop b name cursor [] 0 w")
  with assms obtain rest c1 where r1: "r1 = Inr (rest, c1)"
    by (cases r1) (auto simp: incremental_copy_def)
  from incremental_loop_ok [OF lp [unfolded r1]] obtain xs where
    xs: "xs @ rest = cursor" "\<forall>d \<in> set xs. validator (target w name) d" "upserted name xs w w1"
    by auto
  have "upserted name cursor w w' \<and> (\<forall>d \<in> set cursor. validator (target w name) d)"
  proof (cases "rest = []")
    case True
    with assms lp r1 have "w' = w1" by (simp add: incremental_copy_def)
    with xs True show ?thesis by auto
  next
    case False
    obtain r2 w2 where bw: "bulkWrite name rest w1 = (r2, w2)" by (cases "bulkWrite name rest w1")
    with assms lp r1 False obtain u where r2: "r2 = Inr u" and w': "w' = w2"
      by (cases r2) (simp_all add: incremental_copy_def)
    note ok = bulkWrite_ok [OF bw [unfolded r2]]
    from ok(2) upserted_validator [OF xs(3)] have "\<forall>d \<in> set rest. validator (target w name) d"
      by simp
    with xs(1,2) upserted_trans [OF xs(3) ok(1)] w' show ?thesis by auto
  qed
  then show "upserted name cursor w w'" and "\<forall>d \<in> set cursor. validator (target w name) d"
    by simp_all
qed

lemma incremental_copy_accepts:
  assumes "\<forall>d \<in> set cursor. validator (target w name) d"
  shows "\<exists>c w'. incremental_copy b name cursor w = (Inr c, w')"
proof -
  from incremental_loop_accepts [of "[]" cursor w name b 0] assms obtain rest c w1 where
    lp: "incremental_loop b name cursor [] 0 w = (Inr (rest, c), w1)" by auto
  from incremental_loop_ok [OF lp] obtain xs where
    xs: "xs @ rest = cursor" "upserted name xs w w1" by auto
  show ?thesis
  proof (cases "rest = []")
    case True
    with lp show ?thesis by (simp add: incremental_copy_def)
  next
    case False
    obtain r2 w2 where bw: "bulkWrite name rest w1 = (r2, w2)" by (cases "bulkWrite name rest w1")
    from xs(1) assms upserted_validator [OF xs(2)]
    have "\<forall>d \<in> set rest. validator (target w1 name) d" by auto
    with bulkWrite_result [OF bw] False obtain u where "r2 = Inr u" by auto
    with lp bw False show ?thesis by (simp add: incremental_copy_def)
  qed
qed

subsection \<open>Operations on the target only; the import loop\<close>

lemma target_only_refl [simp]: "target_only w w"
  by (simp add: target_only_def)

lemma target_only_trans: "target_only w w1 \<Longrightarrow> target_only w1 w2 \<Longrightarrow> target_only w w2"
  by (simp add: target_only_def)

lemma target_only_basic [simp]:
  "target_only w (log_op x w)"
  "target_only w (set_docs n ds w)"
  "target_only w (set_docs n ds (log_op x w))"
  "target_only w (deleteOne n i w)"
  "target_only w (deleteMany n w)"
  by (simp_all add: target_only_def deleteOne_def deleteMany_def)

lemma insertOne_target_only: "insertOne name d w = (r, w') \<Longrightarrow> target_only w w'"
  by (auto simp: insertOne_def Let_def split: if_splits)

lemma insertMany_target_only: "insertMany name batch w = (r, w') \<Longrightarrow> target_only w w'"
  by (auto simp: insertMany_def Let_def split: if_splits prod.splits)

lemma bulkWrite_target_only: "bulkWrite name batch w = (r, w') \<Longrightarrow> target_only w w'"
  by (auto simp: bulkWrite_def Let_def split: if_splits prod.splits)

lemma createIndex_target_only: "target_only w (snd (createIndex name idx w))"
  by (simp add: createIndex_def Let_def target_only_def)

lemma create_indexes_target_only: "target_only w (create_indexes name ixs w)"
proof (induction ixs arbitrary: w)
  case Nil
  show ?case by simp
next
  case (Cons index rest)
  show ?case using target_only_trans [OF createIndex_target_only Cons.IH] by simp
qed

lemma copyIndexesToTarget_target_only [simp]: "target_only w (copyIndexesToTarget name ixs w)"
  by (simp add: copyIndexesToTarget_def create_indexes_target_only)

lemma schema_probe_target_only: "schema_probe name q w = (r, w') \<Longrightarrow> target_only w w'"
  by (auto simp: schema_probe_def split: option.splits prod.splits sum.splits
      dest!: insertOne_target_only intro: target_only_trans [OF _ target_only_basic(4)])

lemma run_probe_target_only: "run_probe cfg name q w = (r, w') \<Longrightarrow> target_only w w'"
  by (auto simp: run_probe_def split: if_splits dest: schema_probe_target_only)

lemma incremental_loop_target_only:
  "incremental_loop b name cursor batch copied w = (r, w') \<Longrightarrow> target_only w w'"
proof (induction b name cursor batch copied w rule: incremental_loop.induct)
  case (1 b name batch copied w)
  then show ?case by auto
next
  case (2 b name d cursor batch copied w)
  then show ?case
    by (auto split: if_splits prod.splits sum.splits
        dest!: bulkWrite_target_only intro: target_only_trans)
qed

lemma incremental_copy_target_only:
  "incremental_copy b name cursor w = (r, w') \<Longrightarrow> target_only w w'"
  by (auto simp: incremental_copy_def split: if_splits prod.splits sum.splits
      dest!: bulkWrite_target_only incremental_loop_target_only intro: target_only_trans)

lemma import_loop_bulkWrite_unfold:
  "import_loop bulkWrite b name json i w =
     (if i < length json then
        (case bulkWrite name (take b (drop i json)) w of
           (Inl err, w') \<Rightarrow> Some (Inl err, w')
         | (Inr u, w') \<Rightarrow> import_loop bulkWrite b name json (i + b) w')
      else Some (Inr (), w))"
  by (rule import_loop.simps)

lemma take_drop_step: "take b (drop i json) @ drop (i + b) json = drop i json"
  by (metis add.commute append_take_drop_id drop_drop)

lemma import_loop_upserts_snd:
  assumes "import_loop wr b name json i w = Some y" and "wr = bulkWrite"
  shows "target_only w (snd y) \<and>
     (\<exists>xs. set xs \<subseteq> set (drop i json) \<and> upserted name xs w (snd y)) \<and>
     (\<forall>u. fst y = Inr u \<longrightarrow>
        upserted name (drop i json) w (snd y) \<and>
        (\<forall>d \<in> set (drop i json). validator (target w name) d) \<and>
        (i < length json \<longrightarrow> 0 < b))"
  using assms
proof (induction rule: import_loop.raw_induct [rotated 1, consumes 1])
  case (1 loop wr b name json i w y)
  note wr = \<open>wr = bulkWrite\<close>
  show ?case
  proof (cases "i < length json")
    case False
    with 1(2) have "y = (Inr (), w)" by simp
    with False show ?thesis by (auto simp: upserted_Nil intro!: exI [of _ "[]"])
  next
    case True
    let ?chunk = "take b (drop i json)"
    obtain r w1 where bw: "bulkWrite name ?chunk w = (r, w1)"
      by (cases "bulkWrite name ?chunk w")
    let ?xs = "filter (validator (target w name)) ?chunk"
    have u1: "upserted name ?xs w w1" using bulkWrite_upserted [OF bw] .
    have t1: "target_only w w1" using bulkWrite_target_only [OF bw] .
    have sub: "set ?chunk \<subseteq> set (drop i json)" by (rule set_take_subset)
    show ?thesis
    proof (cases r)
      case (Inl err)
      with 1(2) True bw wr have y: "y = (Inl err, w1)" by simp
      with u1 t1 sub show ?thesis by (auto intro!: exI [of _ ?xs])
    next
      case (Inr u)
      with 1(2) True bw wr have rec: "loop wr b name json (i + b) w1 = Some y" by simp
      note ok = bulkWrite_ok [OF bw [unfolded Inr]]
      from 1(1) [OF rec wr] obtain ys where
        t2: "target_only w1 (snd y)"
        and ys: "set ys \<subseteq> set (drop (i + b) json)" "upserted name ys w1 (snd y)"
        and fin: "\<forall>u. fst y = Inr u \<longrightarrow>
            upserted name (drop (i + b) json) w1 (snd y) \<and>
            (\<forall>d \<in> set (drop (i + b) json). validator (target w1 name) d)"
        by auto
      have sub2: "set (drop (i + b) json) \<subseteq> set (drop i json)"
        by (metis take_drop_step set_append Un_upper2)
      have any: "\<exists>xs. set xs \<subseteq> set (drop i json) \<and> upserted name xs w (snd y)"
        using upserted_trans [OF u1 ys(2)] ys(1) sub sub2
        by (intro exI [of _ "?xs @ ys"]) auto
      have b: "0 < b" using ok(3) by (cases b) simp_all
      have "\<forall>u. fst y = Inr u \<longrightarrow>
        upserted name (drop i json) w (snd y) \<and>
        (\<forall>d \<in> set (drop i json). validator (target w name) d) \<and> (i < length json \<longrightarrow> 0 < b)"
      proof (intro allI impI)
        fix u'
        assume "fst y = Inr u'"
        with fin have f1: "upserted name (drop (i + b) json) w1 (snd y)"
          and f2: "\<forall>d \<in> set (drop (i + b) json). validator (target w1 name) d" by auto
        from upserted_trans [OF ok(1) f1] have "upserted name (drop i json) w (snd y)"
          by (simp add: take_drop_step)
        moreover have "\<forall>d \<in> set (drop i json). validator (target w name) d"
        proof
          fix d assume "d \<in> set (drop i json)"
          then have "d \<in> set ?chunk \<or> d \<in> set (drop (i + b) json)"
            by (metis take_drop_step set_append Un_iff)
          with ok(2) f2 upserted_validator [OF ok(1)] show "validator (target w name) d" by auto
        qed
        ultimately show "upserted name (drop i json) w (snd y) \<and>
          (\<forall>d \<in> set (drop i json). validator (target w name) d) \<and> (i < length json \<longrightarrow> 0 < b)"
          using b by simp
      qed
      with any target_only_trans [OF t1 t2] show ?thesis by simp
    qed
  qed
qed

lemma import_loop_accepts:
  assumes "0 < b"
  shows "\<forall>d \<in> set (drop i json). validator (target w name) d \<Longrightarrow>
     \<exists>u w'. import_loop bulkWrite b name json i w = Some (Inr u, w')"
proof (induction "length json - i" arbitrary: i w rule: less_induct)
  case less
  show ?case
  proof (cases "i < length json")
    case False
    then show ?thesis by (subst import_loop.simps) simp
  next
    case True
    let ?chunk = "take b (drop i json)"
    obtain r w1 where bw: "bulkWrite name ?chunk w = (r, w1)"
      by (cases "bulkWrite name ?chunk w")
    from True assms have ne: "?chunk \<noteq> []" by simp
    have "set ?chunk \<subseteq> set (drop i json)" by (rule set_take_subset)
    with less.prems bulkWrite_result [OF bw] ne obtain u where r: "r = Inr u" by auto
    note ok = bulkWrite_ok [OF bw [unfolded r]]
    have "set (drop (i + b) json) \<subseteq> set (drop i json)"
      by (metis take_drop_step set_append Un_upper2)
    with less.prems upserted_validator [OF ok(1)]
    have acc: "\<forall>d \<in> set (drop (i + b) json). validator (target w1 name) d" by auto
    from True assms have "length json - (i + b) < length json - i" by simp
    from less.hyps [OF this acc] obtain u' w' where
      "import_loop bulkWrite b name json (i + b) w1 = Some (Inr u', w')" by auto
    with True bw r show ?thesis by (subst import_loop.simps) simp
  qed
qed

subsection \<open>Indexes and the probe, run again\<close>

lemma createIndex_target:
  "target (snd (createIndex name idx w)) =
     (target w)(name := (target w name)\<lparr>indexes := add_index idx (indexes (target w name))\<rparr>)"
  by (auto simp: createIndex_def Let_def add_index_def)

lemma create_indexes_target:
  "target (create_indexes name ixs w) =
     (target w)(name := (target w name)
        \<lparr>indexes := fold add_index (map strip_internal ixs) (indexes (target w name))\<rparr>)"
  by (induction ixs arbitrary: w) (simp_all add: createIndex_target)

lemma add_index_settled:
  "add_index x (add_index x ixs) = add_index x ixs"
  by (auto simp: add_index_def)

lemma add_index_keeps_settled:
  "add_index x ixs = ixs \<Longrightarrow> add_index x (add_index y ixs) = add_index y ixs"
  by (auto simp: add_index_def split: if_splits)

lemma fold_add_index_keeps_settled:
  "add_index x ixs = ixs \<Longrightarrow> add_index x (fold add_index ys ixs) = fold add_index ys ixs"
proof (induction ys arbitrary: ixs)
  case Nil
  then show ?case by simp
next
  case (Cons y ys)
  from add_index_keeps_settled [OF Cons.prems] have "add_index x (add_index y ixs) = add_index y ixs" .
  from Cons.IH [OF this] show ?case by simp
qed

lemma fold_add_index_settles:
  "x \<in> set xs \<Longrightarrow> add_index x (fold add_index xs ixs) = fold add_index xs ixs"
proof (induction xs arbitrary: ixs)
  case Nil
  then show ?case by simp
next
  case (Cons y ys)
  show ?case
  proof (cases "x = y")
    case True
    from fold_add_index_keeps_settled [OF add_index_settled] True show ?thesis by simp
  next
    case False
    with Cons.prems have "x \<in> set ys" by simp
    from Cons.IH [OF this] show ?thesis by simp
  qed
qed

lemma fold_add_index_fixed:
  "\<forall>x \<in> set xs. add_index x ixs = ixs \<Longrightarrow> fold add_index xs ixs = ixs"
  by (induction xs) simp_all

lemma fold_add_index_idem:
  "fold add_index xs (fold add_index xs ixs) = fold add_index xs ixs"
  by (rule fold_add_index_fixed) (simp add: fold_add_index_settles)

lemma copyIndexesToTarget_idem:
  assumes "indexes (target v name) = indexes (target (copyIndexesToTarget name ixs w) name)"
  shows "target (copyIndexesToTarget name ixs v) = target v"
proof -
  let ?xs = "map strip_internal (filter (\<lambda>idx. idx_name idx \<noteq> ''_id_'') ixs)"
  from assms have "indexes (target v name) = fold add_index ?xs (indexes (target w name))"
    by (simp add: copyIndexesToTarget_def create_indexes_target)
  then have "fold add_index ?xs (indexes (target v name)) = indexes (target v name)"
    by (simp add: fold_add_index_idem)
  then show ?thesis
    by (simp add: copyIndexesToTarget_def create_indexes_target)
qed

lemma schema_probe_target:
  assumes "schema_probe name q w = (p, w1)"
  shows "target w1 = target w"
proof (cases "findOne w name q")
  case None
  with assms show ?thesis by (simp add: schema_probe_def)
next
  case (Some s)
  show ?thesis
  proof (cases "doc_id s \<in> ids (docs (target w name))")
    case True
    from schema_probe_duplicate [OF Some True] assms show ?thesis by simp
  next
    case False
    show ?thesis
    proof (cases "validator (target w name) (validation_doc s)")
      case True
      from schema_probe_passes [OF Some False True] assms show ?thesis by auto
    next
      case nv: False
      from schema_probe_rejected [OF Some False nv] assms show ?thesis by auto
    qed
  qed
qed

lemma schema_probe_result:
  "fst (schema_probe name q w) =
     (case findOne w name q of
        None \<Rightarrow> Inr ()
      | Some s \<Rightarrow>
          if doc_id s \<in> ids (docs (target w name)) then Inl DuplicateKey
          else if \<not> validator (target w name) (validation_doc s) then Inl DocumentValidationFailure
          else Inr ())"
proof (cases "findOne w name q")
  case None
  then show ?thesis by (simp add: schema_probe_def)
next
  case (Some s)
  then show ?thesis
    using schema_probe_duplicate [OF Some] schema_probe_rejected [OF Some] schema_probe_passes [OF Some]
    by auto
qed

lemma run_probe_target: "run_probe cfg name q w = (p, w1) \<Longrightarrow> target w1 = target w"
  by (auto simp: run_probe_def split: if_splits dest: schema_probe_target)

lemma run_probe_cong:
  assumes "source v = source w" and "target v name = target w name"
  shows "fst (run_probe cfg name q v) = fst (run_probe cfg name q w)"
  using assms reads_cong(3) [OF assms(1)]
  by (auto simp: run_probe_def schema_probe_result split: option.splits)

subsection \<open>An incremental turn of the loop\<close>

lemma no_delete_many_refl [simp]: "no_delete_many w w"
  by (simp add: no_delete_many_def)

lemma no_delete_many_trans:
  "no_delete_many w w1 \<Longrightarrow> no_delete_many w1 w2 \<Longrightarrow> no_delete_many w w2"
  by (fastforce simp: no_delete_many_def)

lemma no_delete_many_same_log: "target_ops w' = target_ops w \<Longrightarrow> no_delete_many w w'"
  by (simp add: no_delete_many_def)

lemma insertOne_no_delete_many: "insertOne name d w = (r, w') \<Longrightarrow> no_delete_many w w'"
  by (auto simp: insertOne_def Let_def no_delete_many_def split: if_splits)

lemma deleteOne_no_delete_many [simp]: "no_delete_many w (deleteOne name i w)"
  by (simp add: deleteOne_def no_delete_many_def)

lemma bulkWrite_no_delete_many: "bulkWrite name batch w = (r, w') \<Longrightarrow> no_delete_many w w'"
  by (auto simp: bulkWrite_def Let_def no_delete_many_def split: if_splits prod.splits)

lemma copyIndexesToTarget_no_delete_many [simp]:
  "no_delete_many w (copyIndexesToTarget name ixs w)"
  using copyIndexesToTarget_keeps(2) [of name ixs w] by (auto simp: no_delete_many_def)

lemma schema_probe_no_delete_many: "schema_probe name q w = (r, w') \<Longrightarrow> no_delete_many w w'"
  by (auto simp: schema_probe_def split: option.splits prod.splits sum.splits
      dest!: insertOne_no_delete_many intro: no_delete_many_trans [OF _ deleteOne_no_delete_many])

lemma run_probe_no_delete_many: "run_probe cfg name q w = (r, w') \<Longrightarrow> no_delete_many w w'"
  by (auto simp: run_probe_def split: if_splits dest: schema_probe_no_delete_many)

lemma incremental_loop_no_delete_many:
  "incremental_loop b name cursor batch copied w = (r, w') \<Longrightarrow> no_delete_many w w'"
proof (induction b name cursor batch copied w rule: incremental_loop.induct)
  case (1 b name batch copied w)
  then show ?case by auto
next
  case (2 b name d cursor batch copied w)
  then show ?case
    by (auto split: if_splits prod.splits sum.splits
        dest!: bulkWrite_no_delete_many intro: no_delete_many_trans)
qed

lemma incremental_copy_no_delete_many:
  "incremental_copy b name cursor w = (r, w') \<Longrightarrow> no_delete_many w w'"
  by (auto simp: incremental_copy_def split: if_splits prod.splits sum.splits
      dest!: bulkWrite_no_delete_many incremental_loop_no_delete_many intro: no_delete_many_trans)

lemma import_loop_no_delete_many_snd:
  assumes "import_loop wr b name json i w = Some y" and "wr = bulkWrite"
  shows "no_delete_many w (snd y)"
  using assms
proof (induction rule: import_loop.raw_induct [rotated 1, consumes 1])
  case (1 loop wr b name json i w y)
  note wr = \<open>wr = bulkWrite\<close>
  show ?case
  proof (cases "i < length json")
    case False
    with 1(2) show ?thesis by auto
  next
    case True
    obtain r w1 where bw: "bulkWrite name (take b (drop i json)) w = (r, w1)"
      by (cases "bulkWrite name (take b (drop i json)) w")
    note n1 = bulkWrite_no_delete_many [OF bw]
    show ?thesis
    proof (cases r)
      case (Inl err)
      with 1(2) True bw wr n1 show ?thesis by auto
    next
      case (Inr u)
      with 1(2) True bw wr have "loop wr b name json (i + b) w1 = Some y" by simp
      from no_delete_many_trans [OF n1 1(1) [OF this wr]] show ?thesis .
    qed
  qed
qed

lemma live_copy_incremental_any:
  assumes "incremental cfg" and "live_copy cfg name q t w1 = Some (res, w')"
  shows "\<exists>xs. set xs \<subseteq> set (find_cursor w1 name q) \<and>
           docs (target w' name) = fold upsert xs (docs (target w1 name))"
    and "no_delete_many w1 w'"
proof -
  obtain r2 w2 where ic: "incremental_copy (batchSize cfg) name (find_cursor w1 name q) w1 = (r2, w2)"
    by (cases "incremental_copy (batchSize cfg) name (find_cursor w1 name q) w1")
  from incremental_copy_any [OF ic] obtain xs where
    xs: "set xs \<subseteq> set (find_cursor w1 name q)" "upserted name xs w1 w2" by auto
  from assms ic have w': "w' = w2 \<or> w' = copyIndexesToTarget name (indexes (source_collection w1 name)) w2"
    by (auto simp: live_copy_def Let_def split: sum.splits if_splits)
  then have "docs (target w' name) = docs (target w2 name)"
    by (auto simp: copyIndexesToTarget_keeps)
  with xs upserted_docs [OF xs(2)]
  show "\<exists>xs. set xs \<subseteq> set (find_cursor w1 name q) \<and>
           docs (target w' name) = fold upsert xs (docs (target w1 name))"
    by auto
  from w' incremental_copy_no_delete_many [OF ic]
  show "no_delete_many w1 w'"
    by (auto intro: no_delete_many_trans [OF _ copyIndexesToTarget_no_delete_many])
qed

lemma import_incremental_any:
  assumes "incremental cfg" and "import_collection cfg name w1 = Some (res, w')"
  shows "\<exists>xs. set xs \<subseteq> (case data_files w1 name of Some (Parsed json) \<Rightarrow> set json | _ \<Rightarrow> {}) \<and>
           docs (target w' name) = fold upsert xs (docs (target w1 name))"
    and "no_delete_many w1 w'"
proof -
  have "(\<exists>xs. set xs \<subseteq> (case data_files w1 name of Some (Parsed json) \<Rightarrow> set json | _ \<Rightarrow> {}) \<and>
           docs (target w' name) = fold upsert xs (docs (target w1 name))) \<and> no_delete_many w1 w'"
  proof (cases "data_files w1 name")
    case None
    with assms(2) have "w' = w1" by (simp add: import_collection_def)
    then show ?thesis by (auto intro!: exI [of _ "[]"])
  next
    case (Some f)
    show ?thesis
    proof (cases f)
      case Unparsable
      with Some assms(2) have "w' = w1" by (simp add: import_collection_def)
      then show ?thesis by (auto intro!: exI [of _ "[]"])
    next
      case (Parsed json)
      show ?thesis
      proof (cases "json = []")
        case True
        with Some Parsed assms(2) have "w' = w1" by (simp add: import_collection_def)
        then show ?thesis by (auto intro!: exI [of _ "[]"])
      next
        case False
        with Some Parsed assms obtain y where
          lp: "import_loop bulkWrite (batchSize cfg) name json 0 w1 = Some y"
          and w': "w' = snd y \<or> (\<exists>ixs. w' = copyIndexesToTarget name ixs (snd y))"
          by (auto simp: import_collection_def Let_def
              split: option.splits prod.splits sum.splits json_file.splits if_splits)
        from import_loop_upserts_snd [OF lp refl] obtain xs where
          xs: "set xs \<subseteq> set json" "upserted name xs w1 (snd y)" by auto
        from w' have "docs (target w' name) = docs (target (snd y) name)"
          by (auto simp: copyIndexesToTarget_keeps)
        moreover from w' import_loop_no_delete_many_snd [OF lp refl]
        have "no_delete_many w1 w'"
          by (auto intro: no_delete_many_trans [OF _ copyIndexesToTarget_no_delete_many])
        ultimately show ?thesis using xs upserted_docs [OF xs(2)] Some Parsed by auto
      qed
    qed
  qed
  then show "\<exists>xs. set xs \<subseteq> (case data_files w1 name of Some (Parsed json) \<Rightarrow> set json | _ \<Rightarrow> {}) \<and>
           docs (target w' name) = fold upsert xs (docs (target w1 name))"
    and "no_delete_many w1 w'" by simp_all
qed

lemma process_collection_cases:
  assumes "process_collection cfg name w = Some (res, w')"
  obtains
    (empty) "countDocuments w name (build_query cfg) = 0" "w' = w"
  | (failed) err where "0 < countDocuments w name (build_query cfg)"
      "run_probe cfg name (build_query cfg) w = (Inl err, w')"
  | (dry) u where "0 < countDocuments w name (build_query cfg)"
      "run_probe cfg name (build_query cfg) w = (Inr u, w')" "dryRun cfg"
  | (import) u w1 where "0 < countDocuments w name (build_query cfg)"
      "run_probe cfg name (build_query cfg) w = (Inr u, w1)" "\<not> dryRun cfg" "importJson cfg"
      "import_collection cfg name w1 = Some (res, w')"
  | (export) u w1 where "0 < countDocuments w name (build_query cfg)"
      "run_probe cfg name (build_query cfg) w = (Inr u, w1)" "\<not> dryRun cfg" "\<not> importJson cfg"
      "exportJson cfg"
      "export_collection cfg name (build_query cfg) (countDocuments w name (build_query cfg)) w1 = (res, w')"
  | (live) u w1 where "0 < countDocuments w name (build_query cfg)"
      "run_probe cfg name (build_query cfg) w = (Inr u, w1)" "\<not> dryRun cfg" "\<not> importJson cfg"
      "\<not> exportJson cfg"
      "live_copy cfg name (build_query cfg) (countDocuments w name (build_query cfg)) w1 = Some (res, w')"
proof (cases "countDocuments w name (build_query cfg) = 0")
  case True
  with assms have "w' = w" by (simp add: process_collection_def)
  with True show ?thesis by (rule empty)
next
  case False
  then have pos: "0 < countDocuments w name (build_query cfg)" by simp
  obtain p w1 where probe: "run_probe cfg name (build_query cfg) w = (p, w1)"
    by (cases "run_probe cfg name (build_query cfg) w")
  show ?thesis
  proof (cases p)
    case (Inl err)
    with assms False probe have "w' = w1" by (simp add: process_collection_def)
    with pos probe Inl show ?thesis by (auto intro: failed)
  next
    case (Inr u)
    with assms False probe have body:
      "(if dryRun cfg then Some (Inr (mk_result name 0 (countDocuments w name (build_query cfg)) ''dry-run''), w1)
        else if importJson cfg then import_collection cfg name w1
        else if exportJson cfg
             then Some (export_collection cfg name (build_query cfg) (countDocuments w name (build_query cfg)) w1)
             else live_copy cfg name (build_query cfg) (countDocuments w name (build_query cfg)) w1) = Some (res, w')"
      by (simp add: process_collection_def Let_def)
    show ?thesis
    proof (cases "dryRun cfg")
      case True
      with body have "w' = w1" by simp
      with pos probe Inr True show ?thesis by (auto intro: dry)
    next
      case nd: False
      show ?thesis
      proof (cases "importJson cfg")
        case True
        with body nd pos probe Inr show ?thesis by (auto intro: import)
      next
        case ni: False
        show ?thesis
        proof (cases "exportJson cfg")
          case True
          with body nd ni pos probe Inr show ?thesis by (auto intro: export)
        next
          case False
          with body nd ni pos probe Inr show ?thesis by (auto intro: live)
        qed
      qed
    qed
  qed
qed

lemma export_collection_target: "export_collection cfg name q t w = (r, w') \<Longrightarrow> target w' = target w \<and> target_ops w' = target_ops w"
  by (auto simp: export_collection_def Let_def)

lemma process_incremental_any:
  assumes "incremental cfg" and "process_collection cfg name w = Some (res, w')"
  shows "\<exists>xs. set xs \<subseteq> (if importJson cfg
                          then (case data_files w name of Some (Parsed json) \<Rightarrow> set json | _ \<Rightarrow> {})
                          else set (find_cursor w name (build_query cfg))) \<and>
           docs (target w' name) = fold upsert xs (docs (target w name))"
    and "no_delete_many w w'"
proof -
  let ?S = "if importJson cfg
            then (case data_files w name of Some (Parsed json) \<Rightarrow> set json | _ \<Rightarrow> {})
            else set (find_cursor w name (build_query cfg))"
  have "(\<exists>xs. set xs \<subseteq> ?S \<and> docs (target w' name) = fold upsert xs (docs (target w name))) \<and>
        no_delete_many w w'"
  using assms(2)
  proof (cases rule: process_collection_cases)
    case empty
    then show ?thesis by (auto intro!: exI [of _ "[]"])
  next
    case (failed err)
    from run_probe_target [OF failed(2)] run_probe_no_delete_many [OF failed(2)]
    show ?thesis by (auto intro!: exI [of _ "[]"])
  next
    case (dry u)
    from run_probe_target [OF dry(2)] run_probe_no_delete_many [OF dry(2)]
    show ?thesis by (auto intro!: exI [of _ "[]"])
  next
    case (import u w1)
    from run_probe_target_only [OF import(2)] have f: "data_files w1 = data_files w"
      by (simp add: target_only_def)
    from import_incremental_any [OF assms(1) import(5)] f run_probe_target [OF import(2)] import(4)
      no_delete_many_trans [OF run_probe_no_delete_many [OF import(2)]]
    show ?thesis by auto
  next
    case (export u w1)
    from export_collection_target [OF export(6)] run_probe_target [OF export(2)]
      no_delete_many_trans [OF run_probe_no_delete_many [OF export(2)] no_delete_many_same_log]
    show ?thesis by (auto intro!: exI [of _ "[]"])
  next
    case (live u w1)
    from run_probe_target_only [OF live(2)] have "source w1 = source w" by (simp add: target_only_def)
    from reads_cong(1) [OF this] have c: "find_cursor w1 = find_cursor w" .
    from live_copy_incremental_any [OF assms(1) live(6)] c run_probe_target [OF live(2)] live(4)
      no_delete_many_trans [OF run_probe_no_delete_many [OF live(2)]]
    show ?thesis by auto
  qed
  then show "\<exists>xs. set xs \<subseteq> ?S \<and> docs (target w' name) = fold upsert xs (docs (target w name))"
    and "no_delete_many w w'" by simp_all
qed

lemma upserted_again:
  assumes "upserted name xs w1 w2" and "docs (target v name) = docs (target w2 name)"
    and "upserted name xs v v2"
  shows "target v2 = target v"
proof -
  from assms(1,2) have "docs (target v name) = fold upsert xs (docs (target w1 name))"
    by (simp add: upserted_docs)
  then have "fold upsert xs (docs (target v name)) = docs (target v name)"
    by (simp add: fold_upsert_idem)
  with assms(3) show ?thesis by (simp add: upserted_def)
qed

lemma live_copy_incremental_idem:
  assumes "incremental cfg" and "live_copy cfg name q t w1 = Some (Inr r, w')"
    and "target v name = target w' name" and "source v = source w1"
  shows "\<exists>res v'. live_copy cfg name q t v = Some (res, v') \<and> target v' = target v"
proof -
  let ?cursor = "find_cursor w1 name q"
  let ?ixs = "indexes (source_collection w1 name)"
  from assms(1,2) obtain c w2 where
    ic: "incremental_copy (batchSize cfg) name ?cursor w1 = (Inr c, w2)"
    and w': "w' = (if copyIndexes cfg then copyIndexesToTarget name ?ixs w2 else w2)"
    by (auto simp: live_copy_def Let_def split: prod.splits sum.splits)
  note ok = incremental_copy_ok [OF ic]
  from w' have d': "docs (target w' name) = docs (target w2 name)"
    and v': "validator (target w' name) = validator (target w2 name)"
    using copyIndexesToTarget_frame [of name w2 ?ixs]
    by (auto simp: copyIndexesToTarget_keeps frame_def)
  from ok(2) upserted_validator [OF ok(1)] v' assms(3)
  have acc: "\<forall>d \<in> set ?cursor. validator (target v name) d" by simp
  from incremental_copy_accepts [OF acc] obtain c2 v2 where
    ic2: "incremental_copy (batchSize cfg) name ?cursor v = (Inr c2, v2)" by blast
  from upserted_again [OF ok(1) _ incremental_copy_ok(1) [OF ic2]] d' assms(3)
  have t2: "target v2 = target v" by simp
  have src: "find_cursor v name q = ?cursor" "source_collection v name = source_collection w1 name"
    using reads_cong(1) [OF assms(4)] source_collection_cong [OF assms(4)] by simp_all
  show ?thesis
  proof (cases "copyIndexes cfg")
    case False
    with assms(1) ic2 src t2 show ?thesis by (simp add: live_copy_def)
  next
    case True
    with w' assms(3) t2
    have "indexes (target v2 name) = indexes (target (copyIndexesToTarget name ?ixs w2) name)" by simp
    from copyIndexesToTarget_idem [OF this] t2
    have "target (copyIndexesToTarget name ?ixs v2) = target v" by simp
    with True assms(1) ic2 src show ?thesis by (simp add: live_copy_def)
  qed
qed

lemma import_incremental_idem:
  assumes "incremental cfg" and "import_collection cfg name w1 = Some (Inr r, w')"
    and "target v name = target w' name" and "data_files v = data_files w1"
    and "index_files v = index_files w1"
  shows "\<exists>res v'. import_collection cfg name v = Some (res, v') \<and> target v' = target v"
proof (cases "data_files w1 name")
  case None
  with assms(4) show ?thesis by (simp add: import_collection_def)
next
  case (Some f)
  show ?thesis
  proof (cases f)
    case Unparsable
    with Some assms(4) show ?thesis by (simp add: import_collection_def)
  next
    case (Parsed json)
    show ?thesis
    proof (cases "json = []")
      case True
      with Some Parsed assms(4) show ?thesis by (simp add: import_collection_def)
    next
      case False
      let ?b = "batchSize cfg"
      from Some Parsed False assms(1,2) obtain u w2 where
        lp: "import_loop bulkWrite ?b name json 0 w1 = Some (Inr u, w2)"
        and rest: "(if copyIndexes cfg then
                    (case index_files w2 name of
                       None \<Rightarrow> Some (Inr (mk_result name (length json) (length json) ''imported-json''), w2)
                     | Some Unparsable \<Rightarrow> Some (Inl JsonSyntaxError, w2)
                     | Some (Parsed ixs) \<Rightarrow>
                         Some (Inr (mk_result name (length json) (length json) ''imported-json''),
                               copyIndexesToTarget name ixs w2))
                  else Some (Inr (mk_result name (length json) (length json) ''imported-json''), w2))
                 = Some (Inr r, w')"
        by (auto simp: import_collection_def Let_def split: option.splits prod.splits sum.splits)
      from import_loop_upserts_snd [OF lp refl] False have
        t12: "target_only w1 w2" and up: "upserted name json w1 w2"
        and acc1: "\<forall>d \<in> set json. validator (target w1 name) d" and b: "0 < ?b"
        by auto
      from rest have w': "w' = w2 \<or> (\<exists>ixs. w' = copyIndexesToTarget name ixs w2)"
        by (auto split: if_splits option.splits json_file.splits)
      then have d': "docs (target w' name) = docs (target w2 name)"
        and v': "validator (target w' name) = validator (target w2 name)"
        using copyIndexesToTarget_frame [of name w2]
        by (auto simp: copyIndexesToTarget_keeps frame_def)
      from acc1 upserted_validator [OF up] v' assms(3)
      have acc: "\<forall>d \<in> set (drop 0 json). validator (target v name) d" by simp
      from import_loop_accepts [OF b acc] obtain u2 v2 where
        lp2: "import_loop bulkWrite ?b name json 0 v = Some (Inr u2, v2)" by blast
      from import_loop_upserts_snd [OF lp2 refl] have
        tv: "target_only v v2" and up2: "upserted name json v v2" by auto
      from upserted_again [OF up _ up2] d' assms(3) have t2: "target v2 = target v" by simp
      from tv t12 assms(5) have ifs: "index_files v2 name = index_files w2 name"
        by (simp add: target_only_def)
      have dv: "data_files v name = Some (Parsed json)" using Some Parsed assms(4) by simp
      show ?thesis
      proof (cases "copyIndexes cfg")
        case False
        with dv assms(1) False lp2 t2 \<open>json \<noteq> []\<close> show ?thesis
          by (simp add: import_collection_def)
      next
        case True
        show ?thesis
        proof (cases "index_files w2 name")
          case None
          with dv assms(1) True lp2 t2 ifs \<open>json \<noteq> []\<close> show ?thesis
            by (simp add: import_collection_def)
        next
          case (Some g)
          show ?thesis
          proof (cases g)
            case Unparsable
            with dv assms(1) True lp2 t2 ifs Some \<open>json \<noteq> []\<close> show ?thesis
              by (simp add: import_collection_def)
          next
            case (Parsed ixs)
            with rest True Some have "w' = copyIndexesToTarget name ixs w2" by simp
            with assms(3) t2
            have "indexes (target v2 name) = indexes (target (copyIndexesToTarget name ixs w2) name)"
              by simp
            from copyIndexesToTarget_idem [OF this] t2
            have "target (copyIndexesToTarget name ixs v2) = target v" by simp
            with dv assms(1) True lp2 ifs Some Parsed \<open>json \<noteq> []\<close> show ?thesis
              by (simp add: import_collection_def)
          qed
        qed
      qed
    qed
  qed
qed

subsection \<open>An incremental run, and the run after it\<close>

lemma agrees_refl [simp]: "agrees cfg name w w"
  by (simp add: agrees_def)

lemma agrees_trans: "agrees cfg name w w1 \<Longrightarrow> agrees cfg name w1 v \<Longrightarrow> agrees cfg name w v"
  by (simp add: agrees_def)

lemma import_incremental_target_only:
  assumes "incremental cfg" and "import_collection cfg name w1 = Some (res, w')"
  shows "target_only w1 w'"
proof -
  have "w' = w1 \<or> (\<exists>json y. import_loop bulkWrite (batchSize cfg) name json 0 w1 = Some y \<and>
          (w' = snd y \<or> (\<exists>ixs. w' = copyIndexesToTarget name ixs (snd y))))"
    using assms
    by (auto simp: import_collection_def Let_def
        split: option.splits prod.splits sum.splits json_file.splits if_splits)
  then show ?thesis
  proof
    assume "w' = w1"
    then show ?thesis by simp
  next
    assume "\<exists>json y. import_loop bulkWrite (batchSize cfg) name json 0 w1 = Some y \<and>
          (w' = snd y \<or> (\<exists>ixs. w' = copyIndexesToTarget name ixs (snd y)))"
    then obtain json y where lp: "import_loop bulkWrite (batchSize cfg) name json 0 w1 = Some y"
      and w': "w' = snd y \<or> (\<exists>ixs. w' = copyIndexesToTarget name ixs (snd y))" by blast
    from import_loop_upserts_snd [OF lp refl] have "target_only w1 (snd y)" by simp
    with w' show ?thesis
      by (auto intro: target_only_trans [OF _ copyIndexesToTarget_target_only])
  qed
qed

lemma process_incremental_idem:
  assumes "incremental cfg" and "process_collection cfg name w = Some (Inr r, w')"
  shows "settled cfg name w'"
  unfolding settled_def
proof (intro allI impI)
  fix v
  assume ag: "agrees cfg name w' v"
  let ?q = "build_query cfg"
  from process_collection_frame [OF assms(2)] ag have src: "source v = source w"
    by (simp add: frame_def agrees_def)
  from ag have tn: "target v name = target w' name" by (simp add: agrees_def)
  have cnt: "countDocuments v name ?q = countDocuments w name ?q"
    using reads_cong(2) [OF src] by simp
  obtain p2 v1 where probe2: "run_probe cfg name ?q v = (p2, v1)"
    by (cases "run_probe cfg name ?q v")
  note tv = run_probe_target [OF probe2]
  note ov = run_probe_target_only [OF probe2]
  have failed2: "\<exists>res v'. process_collection cfg name v = Some (res, v') \<and> target v' = target v"
    if "0 < countDocuments w name ?q" and "p2 = Inl err" for err
    using that probe2 cnt tv by (simp add: process_collection_def Let_def)
  from assms(2) show "\<exists>res v'. process_collection cfg name v = Some (res, v') \<and> target v' = target v"
  proof (cases rule: process_collection_cases)
    case empty
    with cnt show ?thesis by (simp add: process_collection_def)
  next
    case (failed err)
    from run_probe_target [OF failed(2)] tn have "target v name = target w name" by simp
    from run_probe_cong [OF src this, of cfg ?q] failed(2) probe2
    have "p2 = Inl err" by simp
    from failed2 [OF failed(1) this] show ?thesis .
  next
    case (dry u)
    with probe2 cnt tv show ?thesis
      by (cases p2) (simp_all add: process_collection_def Let_def)
  next
    case (import u w1)
    show ?thesis
    proof (cases p2)
      case (Inl err)
      from failed2 [OF import(1) this] show ?thesis .
    next
      case (Inr u2)
      from import_incremental_target_only [OF assms(1) import(5)] ov ag import(4)
      have "data_files v1 = data_files w1" "index_files v1 = index_files w1"
        by (simp_all add: target_only_def agrees_def)
      moreover from tv tn have "target v1 name = target w' name" by simp
      ultimately obtain res v' where
        "import_collection cfg name v1 = Some (res, v')" "target v' = target v1"
        using import_incremental_idem [OF assms(1) import(5)] by blast
      with import(1,3,4) probe2 Inr cnt tv show ?thesis
        by (simp add: process_collection_def Let_def)
    qed
  next
    case (export u w1)
    show ?thesis
    proof (cases p2)
      case (Inl err)
      from failed2 [OF export(1) this] show ?thesis .
    next
      case (Inr u2)
      obtain res v' where ex: "export_collection cfg name ?q (countDocuments w name ?q) v1 = (res, v')"
        by (cases "export_collection cfg name ?q (countDocuments w name ?q) v1")
      from export_collection_target [OF ex] tv have "target v' = target v" by simp
      with export(1,3,4,5) probe2 Inr cnt ex show ?thesis
        by (simp add: process_collection_def Let_def)
    qed
  next
    case (live u w1)
    show ?thesis
    proof (cases p2)
      case (Inl err)
      from failed2 [OF live(1) this] show ?thesis .
    next
      case (Inr u2)
      from run_probe_target_only [OF live(2)] ov src have "source v1 = source w1"
        by (simp add: target_only_def)
      moreover from tv tn have "target v1 name = target w' name" by simp
      ultimately obtain res v' where
        "live_copy cfg name ?q (countDocuments w name ?q) v1 = Some (res, v')" "target v' = target v1"
        using live_copy_incremental_idem [OF assms(1) live(6)] by blast
      with live(1,3,4,5) probe2 Inr cnt tv show ?thesis
        by (simp add: process_collection_def Let_def)
    qed
  qed
qed

lemma process_incremental_files:
  assumes "incremental cfg" and "importJson cfg"
    and "process_collection cfg m w = Some (res, w1)"
  shows "data_files w1 = data_files w \<and> index_files w1 = index_files w"
proof -
  have "target_only w w1"
    using assms(3)
  proof (cases rule: process_collection_cases)
    case empty
    then show ?thesis by simp
  next
    case (failed err)
    then show ?thesis by (simp add: run_probe_target_only)
  next
    case (dry u)
    then show ?thesis by (simp add: run_probe_target_only)
  next
    case (import u w0)
    from target_only_trans [OF run_probe_target_only [OF import(2)]
        import_incremental_target_only [OF assms(1) import(5)]]
    show ?thesis .
  next
    case (export u w0)
    with assms(2) show ?thesis by simp
  next
    case (live u w0)
    with assms(2) show ?thesis by simp
  qed
  then show ?thesis by (simp add: target_only_def)
qed

lemma settled_step:
  assumes "incremental cfg" and "process_collection cfg m w = Some (res, w1)"
    and "settled cfg n w"
  shows "settled cfg n w1" and "n = m \<Longrightarrow> target w1 = target w"
proof -
  from process_collection_frame [OF assms(2)] have fr: "frame m w w1" .
  have same: "n = m \<Longrightarrow> target w1 = target w"
  proof -
    assume "n = m"
    with assms(3) obtain res' v' where "process_collection cfg m w = Some (res', v')"
      and "target v' = target w"
      unfolding settled_def using agrees_refl by blast
    with assms(2) show "target w1 = target w" by simp
  qed
  then have tn: "target w1 n = target w n"
    using fr by (cases "n = m") (simp_all add: frame_def)
  have "agrees cfg n w w1"
    using tn fr process_incremental_files [OF assms(1) _ assms(2)]
    by (simp add: agrees_def frame_def)
  with assms(3) show "settled cfg n w1"
    unfolding settled_def using agrees_trans by blast
  from same show "n = m \<Longrightarrow> target w1 = target w" .
qed

lemma copy_loop_settles:
  assumes "incremental cfg"
  shows "copy_loop cfg names summary w = Some (Inr results, w') \<Longrightarrow>
     (\<forall>n. settled cfg n w \<longrightarrow> settled cfg n w') \<and> (\<forall>n \<in> set names. settled cfg n w')"
proof (induction names arbitrary: summary w)
  case Nil
  then show ?case by simp
next
  case (Cons m rest)
  from Cons.prems obtain r w1 where
    step: "process_collection cfg m w = Some (Inr r, w1)"
    and loop: "copy_loop cfg rest (summary @ [r]) w1 = Some (Inr results, w')"
    by (auto split: option.splits prod.splits sum.splits)
  from Cons.IH [OF loop] have keep: "\<forall>n. settled cfg n w1 \<longrightarrow> settled cfg n w'"
    and rest: "\<forall>n \<in> set rest. settled cfg n w'" by simp_all
  from process_incremental_idem [OF assms step] keep have "settled cfg m w'" by simp
  moreover have "\<forall>n. settled cfg n w \<longrightarrow> settled cfg n w'"
    using settled_step(1) [OF assms step] keep by blast
  ultimately show ?case using rest by simp
qed

lemma copy_loop_settled:
  assumes "incremental cfg"
  shows "\<forall>n \<in> set names. settled cfg n v \<Longrightarrow>
     \<exists>res v'. copy_loop cfg names summary v = Some (res, v') \<and> target v' = target v"
proof (induction names arbitrary: summary v)
  case Nil
  then show ?case by simp
next
  case (Cons m rest)
  from Cons.prems have "settled cfg m v" by simp
  then obtain res v1 where step: "process_collection cfg m v = Some (res, v1)"
    and t1: "target v1 = target v"
    unfolding settled_def using agrees_refl by blast
  show ?case
  proof (cases res)
    case (Inl err)
    with step t1 show ?thesis by simp
  next
    case (Inr r)
    from Cons.prems settled_step(1) [OF assms step] have "\<forall>n \<in> set rest. settled cfg n v1" by simp
    from Cons.IH [OF this, of "summary @ [r]"] obtain res' v' where
      "copy_loop cfg rest (summary @ [r]) v1 = Some (res', v')" "target v' = target v1" by blast
    with step Inr t1 show ?thesis by simp
  qed
qed

lemma settled_cong:
  assumes "source v = source w" and "target v = target w"
    and "data_files v = data_files w" and "index_files v = index_files w"
  shows "settled cfg n v = settled cfg n w"
  using assms by (simp add: settled_def agrees_def)

lemma transfer_docs_cong:
  assumes "source w1 = source w" and "importJson cfg \<longrightarrow> data_files w1 = data_files w"
  shows "transfer_docs cfg w1 = transfer_docs cfg w"
  using assms reads_cong(1) [OF assms(1)] by (auto simp: transfer_docs_def fun_eq_iff)

lemma process_incremental_step:
  assumes "incremental cfg" and "process_collection cfg m w = Some (res, w1)"
  shows "\<exists>xs. set xs \<subseteq> transfer_docs cfg w n \<and>
           docs (target w1 n) = fold upsert xs (docs (target w n))"
proof (cases "n = m")
  case True
  with process_incremental_any(1) [OF assms] show ?thesis by (simp add: transfer_docs_def)
next
  case False
  with process_collection_frame [OF assms(2)] have "target w1 n = target w n"
    by (simp add: frame_def)
  then show ?thesis by (intro exI [of _ "[]"]) simp
qed

lemma copy_loop_incremental:
  assumes "incremental cfg"
  shows "copy_loop cfg names summary w = Some (res, w') \<Longrightarrow>
     no_delete_many w w' \<and>
     (\<forall>n. \<exists>xs. set xs \<subseteq> transfer_docs cfg w n \<and>
        docs (target w' n) = fold upsert xs (docs (target w n)))"
proof (induction names arbitrary: summary w)
  case Nil
  then have "w' = w" by simp
  then show ?case by (auto intro!: exI [of _ "[]"])
next
  case (Cons m rest)
  obtain r1 w1 where step: "process_collection cfg m w = Some (r1, w1)"
    using Cons.prems by (auto split: option.splits)
  note nd1 = process_incremental_any(2) [OF assms step]
  from process_collection_frame [OF step] process_incremental_files [OF assms _ step]
  have td: "transfer_docs cfg w1 = transfer_docs cfg w"
    by (intro transfer_docs_cong) (simp_all add: frame_def)
  show ?case
  proof (cases r1)
    case (Inl err)
    with Cons.prems step have "w' = w1" by simp
    with nd1 process_incremental_step [OF assms step] show ?thesis by simp
  next
    case (Inr r)
    with Cons.prems step have "copy_loop cfg rest (summary @ [r]) w1 = Some (res, w')" by simp
    from Cons.IH [OF this] td have nd2: "no_delete_many w1 w'"
      and rest: "\<forall>n. \<exists>xs. set xs \<subseteq> transfer_docs cfg w n \<and>
                    docs (target w' n) = fold upsert xs (docs (target w1 n))"
      by simp_all
    have "\<exists>xs. set xs \<subseteq> transfer_docs cfg w n \<and>
            docs (target w' n) = fold upsert xs (docs (target w n))" for n
    proof -
      from process_incremental_step [OF assms step, of n] obtain xs where
        xs: "set xs \<subseteq> transfer_docs cfg w n" "docs (target w1 n) = fold upsert xs (docs (target w n))"
        by blast
      from rest obtain ys where
        ys: "set ys \<subseteq> transfer_docs cfg w n" "docs (target w' n) = fold upsert ys (docs (target w1 n))"
        by blast
      from xs ys show ?thesis by (intro exI [of _ "xs @ ys"]) simp
    qed
    with no_delete_many_trans [OF nd1 nd2] show ?thesis by simp
  qed
qed

lemma copyCollections_unfold:
  assumes "copyCollections cfg w = Some (res, w')"
  shows "w' = w \<or> w' = w\<lparr>sourceClient := (sourceClient w)\<lparr>connected := True\<rparr>\<rparr> \<or>
     (reachable (sourceClient w) \<and> reachable (targetClient w) \<and>
      (\<exists>w3. copy_loop cfg (resolve_collections (collections cfg) (map fst (source w))) []
               (w\<lparr>sourceClient := (sourceClient w)\<lparr>connected := True\<rparr>,
                  targetClient := (targetClient w)\<lparr>connected := True\<rparr>\<rparr>) = Some (res, w3) \<and>
            w' = close_both w3))"
  using assms
  by (auto simp: copyCollections_def connect_def Let_def split: if_splits option.splits)

subsection \<open>A batch write that the target rejects\<close>

text \<open>
  A batch with a document the validator rejects makes the batch write raise; the loops
  raise no other error; and nothing between the batch write and the caller catches it.
\<close>

lemma insert_each_rejects:
  "\<exists>d \<in> set batch. \<not> v d \<Longrightarrow> 0 < snd (insert_each v batch ds)"
proof (induction batch arbitrary: ds)
  case Nil
  then show ?case by simp
next
  case (Cons d batch)
  show ?case
  proof (cases "doc_id d \<in> ids ds \<or> \<not> v d")
    case True
    then show ?thesis by (simp split: prod.splits)
  next
    case False
    with Cons.prems have "\<exists>x \<in> set batch. \<not> v x" by auto
    from Cons.IH [OF this] False show ?thesis by simp
  qed
qed

lemma insertMany_result:
  assumes "batch \<noteq> []" and "insertMany name batch w = (r, w')"
  shows "r = Inl BulkWriteError \<or> (r = Inr () \<and> (\<forall>d \<in> set batch. validator (target w name) d))"
proof (cases "\<exists>d \<in> set batch. \<not> validator (target w name) d")
  case True
  from insert_each_rejects [OF True, of "docs (target w name)"] assms show ?thesis
    by (auto simp: insertMany_def Let_def split: prod.splits if_splits)
next
  case False
  with assms show ?thesis
    by (auto simp: insertMany_def Let_def split: prod.splits if_splits)
qed

lemma bulkWrite_error:
  "batch \<noteq> [] \<Longrightarrow> bulkWrite name batch w = (Inl err, w') \<Longrightarrow> err = BulkWriteError"
  by (auto simp: bulkWrite_def Let_def split: prod.splits if_splits)

lemma full_copy_loop_outcome:
  assumes "0 < b"
  shows "\<exists>res w'. full_copy_loop b name cursor copied w = Some (res, w') \<and>
           (\<forall>err. res = Inl err \<longrightarrow> err = BulkWriteError) \<and>
           ((\<exists>d \<in> set cursor. \<not> validator (target w name) d) \<longrightarrow> res = Inl BulkWriteError)"
proof (induction "length cursor" arbitrary: cursor copied w rule: less_induct)
  case less
  show ?case
  proof (cases "cursor = []")
    case True
    then show ?thesis by (simp add: full_copy_loop_step [OF assms])
  next
    case False
    with assms have ne: "take b cursor \<noteq> []" by (cases cursor) auto
    obtain r w1 where ins: "insertMany name (take b cursor) w = (r, w1)"
      by (cases "insertMany name (take b cursor) w")
    from insertMany_result [OF ne ins] show ?thesis
    proof
      assume "r = Inl BulkWriteError"
      with False ins show ?thesis by (simp add: full_copy_loop_step [OF assms])
    next
      assume ok: "r = Inr () \<and> (\<forall>d \<in> set (take b cursor). validator (target w name) d)"
      from False assms have "length (drop b cursor) < length cursor" by simp
      from less [OF this, of "copied + length (take b cursor)" w1] obtain res w' where
        rec: "full_copy_loop b name (drop b cursor) (copied + length (take b cursor)) w1 = Some (res, w')"
        and e: "\<forall>err. res = Inl err \<longrightarrow> err = BulkWriteError"
        and bad: "(\<exists>d \<in> set (drop b cursor). \<not> validator (target w1 name) d) \<longrightarrow> res = Inl BulkWriteError"
        by blast
      from insertMany_frame [OF ins] have v: "validator (target w1 name) = validator (target w name)"
        by (simp add: frame_def)
      have "(\<exists>d \<in> set cursor. \<not> validator (target w name) d) \<longrightarrow> res = Inl BulkWriteError"
      proof
        assume "\<exists>d \<in> set cursor. \<not> validator (target w name) d"
        then obtain d where d: "d \<in> set cursor" "\<not> validator (target w name) d" by blast
        from d(1) have "d \<in> set (take b cursor) \<or> d \<in> set (drop b cursor)"
          by (metis append_take_drop_id set_append Un_iff)
        with ok d(2) have "d \<in> set (drop b cursor)" by blast
        with d(2) v bad show "res = Inl BulkWriteError" by auto
      qed
      with rec e False ins ok show ?thesis by (simp add: full_copy_loop_step [OF assms])
    qed
  qed
qed

lemma incremental_loop_error:
  "incremental_loop b name cursor batch copied w = (Inl err, w') \<Longrightarrow> err = BulkWriteError"
proof (induction b name cursor batch copied w rule: incremental_loop.induct)
  case (1 b name batch copied w)
  then show ?case by simp
next
  case (2 b name d cursor batch copied w)
  show ?case
  proof (cases "b \<le> length (batch @ [d])")
    case True
    obtain r1 w1 where bw: "bulkWrite name (batch @ [d]) w = (r1, w1)"
      by (cases "bulkWrite name (batch @ [d]) w")
    show ?thesis
    proof (cases r1)
      case (Inl e)
      with "2.prems" True bw have "e = err" by simp
      with bulkWrite_error [OF _ bw [unfolded Inl]] show ?thesis by simp
    next
      case (Inr u)
      with "2.prems" True bw have
        "incremental_loop b name cursor [] (copied + length (batch @ [d])) w1 = (Inl err, w')" by simp
      from "2.IH"(1) [OF True bw [symmetric] Inr this] show ?thesis .
    qed
  next
    case False
    with "2.prems" have "incremental_loop b name cursor (batch @ [d]) copied w = (Inl err, w')" by simp
    from "2.IH"(2) [OF False this] show ?thesis .
  qed
qed

lemma incremental_copy_outcome:
  "\<exists>res w'. incremental_copy b name cursor w = (res, w') \<and>
     (\<forall>err. res = Inl err \<longrightarrow> err = BulkWriteError) \<and>
     ((\<exists>d \<in> set cursor. \<not> validator (target w name) d) \<longrightarrow> res = Inl BulkWriteError)"
proof -
  obtain res w' where ic: "incremental_copy b name cursor w = (res, w')"
    by (cases "incremental_copy b name cursor w")
  have e: "err = BulkWriteError" if "res = Inl err" for err
  proof -
    obtain r1 w1 where lp: "incremental_loop b name cursor [] 0 w = (r1, w1)"
      by (cases "incremental_loop b name cursor [] 0 w")
    show ?thesis
    proof (cases r1)
      case (Inl e1)
      with ic lp that have "e1 = err" by (simp add: incremental_copy_def)
      with incremental_loop_error [OF lp [unfolded Inl]] show ?thesis by simp
    next
      case (Inr p)
      obtain rest c where p: "p = (rest, c)" by (cases p)
      with ic lp Inr that have ne: "rest \<noteq> []" by (auto simp: incremental_copy_def)
      obtain r2 w2 where bw: "bulkWrite name rest w1 = (r2, w2)" by (cases "bulkWrite name rest w1")
      with ic lp Inr p ne that have "r2 = Inl err"
        by (cases r2) (auto simp: incremental_copy_def)
      with bulkWrite_error [OF ne] bw show ?thesis by simp
    qed
  qed
  have "res = Inl BulkWriteError" if bad: "\<exists>d \<in> set cursor. \<not> validator (target w name) d"
  proof (cases res)
    case (Inl err)
    with e show ?thesis by simp
  next
    case (Inr c)
    from incremental_copy_ok(2) [OF ic [unfolded Inr]] bad show ?thesis by blast
  qed
  with ic e show ?thesis by blast
qed

lemma live_copy_outcome:
  assumes "0 < batchSize cfg"
  shows "\<exists>res w'. live_copy cfg name q t w = Some (res, w') \<and>
     (\<forall>err. res = Inl err \<longrightarrow> err = BulkWriteError) \<and>
     ((\<exists>d \<in> set (find_cursor w name q). \<not> validator (target w name) d) \<longrightarrow> res = Inl BulkWriteError)"
proof (cases "incremental cfg")
  case True
  from incremental_copy_outcome [of "batchSize cfg" name "find_cursor w name q" w] obtain res w' where
    ic: "incremental_copy (batchSize cfg) name (find_cursor w name q) w = (res, w')"
    and e: "\<forall>err. res = Inl err \<longrightarrow> err = BulkWriteError"
    and bad: "(\<exists>d \<in> set (find_cursor w name q). \<not> validator (target w name) d) \<longrightarrow> res = Inl BulkWriteError"
    by blast
  show ?thesis
  proof (cases res)
    case (Inl err)
    with True ic e show ?thesis by (simp add: live_copy_def)
  next
    case (Inr c)
    with True ic bad show ?thesis by (auto simp: live_copy_def Let_def)
  qed
next
  case False
  have v: "validator (target (deleteMany name w) name) = validator (target w name)"
    by (simp add: deleteMany_def)
  from full_copy_loop_outcome [OF assms, of name "find_cursor w name q" 0 "deleteMany name w"] v
  obtain res w' where
    lp: "full_copy_loop (batchSize cfg) name (find_cursor w name q) 0 (deleteMany name w) = Some (res, w')"
    and e: "\<forall>err. res = Inl err \<longrightarrow> err = BulkWriteError"
    and bad: "(\<exists>d \<in> set (find_cursor w name q). \<not> validator (target w name) d) \<longrightarrow> res = Inl BulkWriteError"
    by auto
  show ?thesis
  proof (cases res)
    case (Inl err)
    with False lp e show ?thesis by (simp add: live_copy_def)
  next
    case (Inr c)
    with False lp bad show ?thesis by (auto simp: live_copy_def Let_def)
  qed
qed

lemma process_collection_raises:
  assumes "\<not> dryRun cfg" and "\<not> importJson cfg" and "\<not> exportJson cfg" and "0 < batchSize cfg"
    and "run_probe cfg name (build_query cfg) w = (Inr u, w1)"
    and "target_rejects cfg w name"
  shows "\<exists>w'. process_collection cfg name w = Some (Inl BulkWriteError, w')"
proof -
  let ?q = "build_query cfg"
  from assms(6) have cnt: "countDocuments w name ?q \<noteq> 0"
    by (auto simp: target_rejects_def find_cursor_def countDocuments_def filter_empty_conv)
  from run_probe_frame [OF assms(5)] have "source w1 = source w" by (simp add: frame_def)
  from reads_cong(1) [OF this] run_probe_ok_target [OF assms(5)] assms(6)
  have "\<exists>d \<in> set (find_cursor w1 name ?q). \<not> validator (target w1 name) d"
    by (simp add: target_rejects_def)
  with live_copy_outcome [OF assms(4), of name ?q "countDocuments w name ?q" w1] obtain w' where
    "live_copy cfg name ?q (countDocuments w name ?q) w1 = Some (Inl BulkWriteError, w')" by blast
  with cnt assms(1-3,5) show ?thesis by (simp add: process_collection_def Let_def)
qed

lemma process_collection_live_outcome:
  assumes "\<not> dryRun cfg" and "\<not> importJson cfg" and "\<not> exportJson cfg" and "\<not> validateSchema cfg"
    and "0 < batchSize cfg"
  shows "\<exists>res w'. process_collection cfg name w = Some (res, w') \<and>
     (\<forall>err. res = Inl err \<longrightarrow> err = BulkWriteError) \<and>
     (target_rejects cfg w name \<longrightarrow> res = Inl BulkWriteError)"
proof (cases "countDocuments w name (build_query cfg) = 0")
  case True
  then have "\<not> target_rejects cfg w name"
    by (auto simp: target_rejects_def find_cursor_def countDocuments_def filter_empty_conv)
  with True show ?thesis by (simp add: process_collection_def)
next
  case False
  from assms(4) have probe: "run_probe cfg name (build_query cfg) w = (Inr (), w)"
    by (simp add: run_probe_def)
  from live_copy_outcome [OF assms(5), of name "build_query cfg" "countDocuments w name (build_query cfg)" w]
  obtain res w' where
    "live_copy cfg name (build_query cfg) (countDocuments w name (build_query cfg)) w = Some (res, w')"
    "\<forall>err. res = Inl err \<longrightarrow> err = BulkWriteError"
    "(\<exists>d \<in> set (find_cursor w name (build_query cfg)). \<not> validator (target w name) d) \<longrightarrow> res = Inl BulkWriteError"
    by blast
  with False probe assms(1-3) show ?thesis
    by (auto simp: process_collection_def Let_def target_rejects_def)
qed

lemma copy_loop_raises:
  assumes "\<not> dryRun cfg" and "\<not> importJson cfg" and "\<not> exportJson cfg" and "\<not> validateSchema cfg"
    and "0 < batchSize cfg"
  shows "\<exists>n \<in> set names. target_rejects cfg w n \<Longrightarrow>
     \<exists>w'. copy_loop cfg names summary w = Some (Inl BulkWriteError, w')"
proof (induction names arbitrary: summary w)
  case Nil
  then show ?case by simp
next
  case (Cons m rest)
  from process_collection_live_outcome [OF assms, of m w] obtain res w1 where
    step: "process_collection cfg m w = Some (res, w1)"
    and e: "\<forall>err. res = Inl err \<longrightarrow> err = BulkWriteError"
    and bad: "target_rejects cfg w m \<longrightarrow> res = Inl BulkWriteError"
    by blast
  show ?case
  proof (cases res)
    case (Inl err)
    with step e show ?thesis by simp
  next
    case (Inr r)
    with bad have nm: "\<not> target_rejects cfg w m" by auto
    with Cons.prems obtain n where n: "n \<in> set rest" "target_rejects cfg w n" "n \<noteq> m" by auto
    from process_collection_frame [OF step] n(3) have "source w1 = source w" "target w1 n = target w n"
      by (simp_all add: frame_def)
    with reads_cong(1) [of w1 w] n(2) have "target_rejects cfg w1 n"
      by (simp add: target_rejects_def)
    with n(1) have "\<exists>n \<in> set rest. target_rejects cfg w1 n" by blast
    from Cons.IH [OF this, of "summary @ [r]"] step Inr show ?thesis by simp
  qed
qed

lemma copyCollections_raises:
  assumes "\<not> dryRun cfg" and "\<not> importJson cfg" and "\<not> exportJson cfg" and "\<not> validateSchema cfg"
    and "0 < batchSize cfg"
    and "reachable (sourceClient w)" and "reachable (targetClient w)"
    and "\<exists>n \<in> set (resolve_collections (collections cfg) (map fst (source w))). target_rejects cfg w n"
  shows "\<exists>w'. copyCollections cfg w = Some (Inl BulkWriteError, w')"
proof -
  let ?w2 = "w\<lparr>sourceClient := (sourceClient w)\<lparr>connected := True\<rparr>,
               targetClient := (targetClient w)\<lparr>connected := True\<rparr>\<rparr>"
  have "find_cursor ?w2 = find_cursor w" by (rule reads_cong) simp
  with assms(8) have "\<exists>n \<in> set (resolve_collections (collections cfg) (map fst (source w))).
      target_rejects cfg ?w2 n"
    by (simp add: target_rejects_def)
  from copy_loop_raises [OF assms(1-5) this, of "[]"] obtain w3 where
    "copy_loop cfg (resolve_collections (collections cfg) (map fst (source w))) [] ?w2
       = Some (Inl BulkWriteError, w3)" by blast
  with assms(6,7) show ?thesis
    by (simp add: copyCollections_def connect_def Let_def)
qed

subsection \<open>Unfolding the model on concrete inputs\<close>

lemmas store_defs =
  source_collection_def find_cursor_def countDocuments_def findOne_def ids_def log_op_def
  set_docs_def insertOne_def deleteOne_def deleteMany_def insertMany_def upsert_def
  bulkWrite_def createIndex_def connect_def close_def no_collection_def

lemmas engine_defs =
  mk_result_def build_query_def validation_doc_def schema_probe_def strip_internal_def
  copyIndexesToTarget_def full_copy_loop.simps incremental_copy_def import_loop.simps
  import_collection_def export_collection_def live_copy_def run_probe_def
  process_collection_def resolve_collections_def close_both_def copyCollections_def Let_def

lemmas demo_defs =
  alice_def bob_def carol_def plain_def picky_def fresh_client_def demo_world_def demo_config_def
  world_after_def stringify_doc_def

section \<open>The properties the specification states\<close>

subsection \<open>C1: failures inside the processing of a collection\<close>

text \<open>
  C1 as stated has every failure inside the processing of a collection caught and
  recorded, the run going on. Counterexample: the target rejects \<open>bob\<close>, the batch
  write of the first collection raises, no \<^verbatim>\<open>catch\<close> surrounds it (the only one
  is around the probe), and the run ends with that error and without results.
\<close>

theorem C1_counterexample:
  "map_option fst
     (copyCollections demo_config
        (demo_world [(''users'', plain [alice, bob]), (''posts'', plain [carol])] (\<lambda>n. picky [])))
   = Some (Inl BulkWriteError)"
  by (simp add: store_defs engine_defs demo_defs picky_def)

text \<open>
  C1, amended: a failure of the schema probe is caught, recorded on the result of the
  collection as \<open>schema-validation-failed\<close> with the error and copied = 0, and the
  loop goes on with the next collection. A batch write that raises is not caught: in a
  store-to-store transfer with a batch size of at least 1, when the probe is off or has
  passed and the target rejects a document of the collection that matches the query, the
  processing of the collection and the loop end with the error of the batch write, and
  a run without the probe whose resolved collections include such a collection returns
  that error in place of results. A run that returns results gives one for each resolved
  collection, in order.
\<close>

theorem C1_probe_failure_isolated:
  "(0 < countDocuments w name (build_query cfg) \<and>
    run_probe cfg name (build_query cfg) w = (Inl err, w1) \<longrightarrow>
      (\<exists>r. process_collection cfg name w = Some (Inr r, w1) \<and>
            res_name r = name \<and> res_status r = ''schema-validation-failed'' \<and>
            res_error r = Some err \<and> res_copied r = 0 \<and>
            copy_loop cfg (name # rest) summary w = copy_loop cfg rest (summary @ [r]) w1)) \<and>
   (\<not> dryRun cfg2 \<and> \<not> importJson cfg2 \<and> \<not> exportJson cfg2 \<and> 0 < batchSize cfg2 \<and>
    run_probe cfg2 name2 (build_query cfg2) v = (Inr (), v1) \<and>
    target_rejects cfg2 v name2 \<longrightarrow>
      (\<exists>v'. process_collection cfg2 name2 v = Some (Inl BulkWriteError, v') \<and>
             copy_loop cfg2 (name2 # rest2) summary2 v = Some (Inl BulkWriteError, v'))) \<and>
   (\<not> dryRun cfg4 \<and> \<not> importJson cfg4 \<and> \<not> exportJson cfg4 \<and> \<not> validateSchema cfg4 \<and>
    0 < batchSize cfg4 \<and> reachable (sourceClient x) \<and> reachable (targetClient x) \<and>
    (\<exists>n \<in> set (resolve_collections (collections cfg4) (map fst (source x))).
       target_rejects cfg4 x n) \<longrightarrow>
      (\<exists>x'. copyCollections cfg4 x = Some (Inl BulkWriteError, x'))) \<and>
   (copyCollections cfg3 u = Some (Inr results, u') \<longrightarrow>
      map res_name results = resolve_collections (collections cfg3) (map fst (source u)))"
proof (intro conjI impI)
  assume "0 < countDocuments w name (build_query cfg) \<and>
    run_probe cfg name (build_query cfg) w = (Inl err, w1)"
  then show "\<exists>r. process_collection cfg name w = Some (Inr r, w1) \<and>
            res_name r = name \<and> res_status r = ''schema-validation-failed'' \<and>
            res_error r = Some err \<and> res_copied r = 0 \<and>
            copy_loop cfg (name # rest) summary w = copy_loop cfg rest (summary @ [r]) w1"
    by (simp add: process_collection_def Let_def)
next
  assume a: "\<not> dryRun cfg2 \<and> \<not> importJson cfg2 \<and> \<not> exportJson cfg2 \<and> 0 < batchSize cfg2 \<and>
    run_probe cfg2 name2 (build_query cfg2) v = (Inr (), v1) \<and> target_rejects cfg2 v name2"
  then have "\<exists>v'. process_collection cfg2 name2 v = Some (Inl BulkWriteError, v')"
    by (intro process_collection_raises [where ?w1.0 = v1]) simp_all
  then show "\<exists>v'. process_collection cfg2 name2 v = Some (Inl BulkWriteError, v') \<and>
             copy_loop cfg2 (name2 # rest2) summary2 v = Some (Inl BulkWriteError, v')"
    by auto
next
  assume "\<not> dryRun cfg4 \<and> \<not> importJson cfg4 \<and> \<not> exportJson cfg4 \<and> \<not> validateSchema cfg4 \<and>
    0 < batchSize cfg4 \<and> reachable (sourceClient x) \<and> reachable (targetClient x) \<and>
    (\<exists>n \<in> set (resolve_collections (collections cfg4) (map fst (source x))).
       target_rejects cfg4 x n)"
  then show "\<exists>x'. copyCollections cfg4 x = Some (Inl BulkWriteError, x')"
    by (intro copyCollections_raises) simp_all
next
  assume run: "copyCollections cfg3 u = Some (Inr results, u')"
  then obtain w2 w3 where
    loop: "copy_loop cfg3 (resolve_collections (collections cfg3) (map fst (source w2))) [] w2
             = Some (Inr results, w3)"
    and src: "source w2 = source u"
    by (auto simp: copyCollections_def Let_def split: sum.splits option.splits)
  from copy_loop_names [OF loop] src
  show "map res_name results = resolve_collections (collections cfg3) (map fst (source u))"
    by simp
qed

text \<open>
  Witness for C1: the probe of \<open>users\<close> fails on a duplicate key and \<open>posts\<close> is
  still copied; on the store that rejects \<open>bob\<close> the probe of \<open>users\<close> passes on
  \<open>alice\<close> and the batch write raises out of the loop; and a run without the probe
  that copies \<open>posts\<close> first raises at \<open>users\<close>.
\<close>

theorem C1_probe_failure_isolated_witness:
  "(\<exists>r. process_collection (demo_config\<lparr>validateSchema := True\<rparr>) ''users''
          (demo_world [(''users'', plain [alice]), (''posts'', plain [carol])] (\<lambda>n. plain [alice]))
        = Some (Inr r, log_op (OpInsertOne ''users'' (validation_doc alice))
             (demo_world [(''users'', plain [alice]), (''posts'', plain [carol])] (\<lambda>n. plain [alice]))) \<and>
        res_status r = ''schema-validation-failed'' \<and> res_error r = Some DuplicateKey) \<and>
   (\<exists>v'. process_collection (demo_config\<lparr>validateSchema := True\<rparr>) ''users''
            (demo_world [(''users'', plain [alice, bob]), (''posts'', plain [carol])] (\<lambda>n. picky []))
          = Some (Inl BulkWriteError, v') \<and>
         copy_loop (demo_config\<lparr>validateSchema := True\<rparr>) [''users'', ''posts''] []
            (demo_world [(''users'', plain [alice, bob]), (''posts'', plain [carol])] (\<lambda>n. picky []))
          = Some (Inl BulkWriteError, v')) \<and>
   (\<exists>x'. copyCollections demo_config
            (demo_world [(''posts'', plain [carol]), (''users'', plain [alice, bob])] (\<lambda>n. picky []))
          = Some (Inl BulkWriteError, x')) \<and>
   map (\<lambda>r. (res_name r, res_status r))
     (case copyCollections (demo_config\<lparr>validateSchema := True\<rparr>)
             (demo_world [(''users'', plain [alice]), (''posts'', plain [carol])] (\<lambda>n. plain [alice])) of
        Some (Inr results, w') \<Rightarrow> results | _ \<Rightarrow> [])
   = [(''users'', ''schema-validation-failed''), (''posts'', ''copied'')]"
proof -
  let ?cfg = "demo_config\<lparr>validateSchema := True\<rparr>"
  let ?w = "demo_world [(''users'', plain [alice]), (''posts'', plain [carol])] (\<lambda>n. plain [alice])"
  let ?v = "demo_world [(''users'', plain [alice, bob]), (''posts'', plain [carol])] (\<lambda>n. picky [])"
  let ?v1 = "log_op (OpDeleteOne ''users'' (doc_id alice))
               (log_op (OpInsertOne ''users'' (validation_doc alice)) ?v)"
  let ?x = "demo_world [(''posts'', plain [carol]), (''users'', plain [alice, bob])] (\<lambda>n. picky [])"
  have h1: "0 < countDocuments ?w ''users'' (build_query ?cfg) \<and>
      run_probe ?cfg ''users'' (build_query ?cfg) ?w
        = (Inl DuplicateKey, log_op (OpInsertOne ''users'' (validation_doc alice)) ?w)"
    by (simp add: store_defs engine_defs demo_defs)
  have h2: "\<not> dryRun ?cfg \<and> \<not> importJson ?cfg \<and> \<not> exportJson ?cfg \<and> 0 < batchSize ?cfg \<and>
      run_probe ?cfg ''users'' (build_query ?cfg) ?v = (Inr (), ?v1) \<and>
      target_rejects ?cfg ?v ''users''"
    by (simp add: store_defs engine_defs demo_defs target_rejects_def fun_upd_idem)
  have h4: "\<not> dryRun demo_config \<and> \<not> importJson demo_config \<and> \<not> exportJson demo_config \<and>
      \<not> validateSchema demo_config \<and> 0 < batchSize demo_config \<and>
      reachable (sourceClient ?x) \<and> reachable (targetClient ?x) \<and>
      (\<exists>n \<in> set (resolve_collections (collections demo_config) (map fst (source ?x))).
         target_rejects demo_config ?x n)"
    by (simp add: store_defs engine_defs demo_defs target_rejects_def)
  obtain results u' where h3: "copyCollections ?cfg ?w = Some (Inr results, u')"
    and st: "map res_status results = [''schema-validation-failed'', ''copied'']"
    by (simp add: store_defs engine_defs demo_defs)
  note inst = C1_probe_failure_isolated [of ?w "''users''" ?cfg DuplicateKey
      "log_op (OpInsertOne ''users'' (validation_doc alice)) ?w" "[]" "[]"
      ?cfg "''users''" ?v ?v1 "[''posts'']" "[]" demo_config ?x ?cfg ?w results u']
  from inst h1 have c1: "\<exists>r. process_collection ?cfg ''users'' ?w
        = Some (Inr r, log_op (OpInsertOne ''users'' (validation_doc alice)) ?w) \<and>
        res_status r = ''schema-validation-failed'' \<and> res_error r = Some DuplicateKey"
    by blast
  from inst h2 have c2: "\<exists>v'. process_collection ?cfg ''users'' ?v = Some (Inl BulkWriteError, v') \<and>
      copy_loop ?cfg [''users'', ''posts''] [] ?v = Some (Inl BulkWriteError, v')"
    by blast
  from inst h4 have c4: "\<exists>x'. copyCollections demo_config ?x = Some (Inl BulkWriteError, x')"
    by blast
  from inst h3 have "map res_name results = [''users'', ''posts'']"
    by (simp add: resolve_collections_def demo_defs)
  with st have "map (\<lambda>r. (res_name r, res_status r)) results
      = [(''users'', ''schema-validation-failed''), (''posts'', ''copied'')]"
    by (auto simp: map_eq_Cons_conv)
  with h3 c1 c2 c4 show ?thesis by simp
qed

subsection \<open>C2: full replacement\<close>

text \<open>
  C2: in a run that is not incremental, when the transfer of a collection has completed
  (its result has the status \<open>copied\<close>; a collection without matching documents, a
  dry run, a failed probe, an import and an export record other statuses, and a write
  that raises records none), the documents of the target collection are exactly the
  source documents that match the predicate, in the order of the cursor, whatever the
  target held before; the operations issued are the probe's (if any), then the deletion
  of all documents, then the batch inserts whose batches make up the cursor, then the
  index creations: no batch is inserted before the deletion.
\<close>

theorem C2_full_replace:
  assumes "\<not> incremental cfg"
    and "process_collection cfg name w = Some (Inr r, w')"
    and "res_status r = ''copied''"
  shows "docs (target w' name) = find_cursor w name (build_query cfg) \<and>
     set (docs (target w' name)) =
       {d \<in> set (docs (source_collection w name)). matches (build_query cfg) d} \<and>
     res_copied r = length (find_cursor w name (build_query cfg)) \<and>
     (\<exists>pre batches post.
        target_ops w' = target_ops w @ pre @ [OpDeleteMany name] @ map (OpInsertMany name) batches @ post \<and>
        concat batches = find_cursor w name (build_query cfg) \<and>
        (\<forall>B. OpInsertMany name B \<notin> set pre))"
proof -
  let ?q = "build_query cfg"
  let ?t = "countDocuments w name ?q"
  obtain p w1 where probe: "run_probe cfg name ?q w = (p, w1)"
    by (cases "run_probe cfg name ?q w")
  from assms(2,3) have cnt: "?t \<noteq> 0"
    by (auto simp: process_collection_def Let_def split: if_splits)
  from assms(2,3) cnt probe obtain u where p: "p = Inr u"
    by (cases p) (auto simp: process_collection_def Let_def)
  from assms(2,3) cnt probe p have live: "live_copy cfg name ?q ?t w1 = Some (Inr r, w')"
    and modes: "\<not> dryRun cfg" "\<not> importJson cfg" "\<not> exportJson cfg"
    by (auto simp: process_collection_def Let_def export_collection_def split: if_splits
        dest: import_collection_status)
  from run_probe_frame [OF probe] have src: "source w1 = source w" by (simp add: frame_def)
  from run_probe_ok_target [OF probe [unfolded p]] have tgt: "target w1 = target w" by simp
  let ?cursor = "find_cursor w name ?q"
  have cur: "find_cursor w1 name ?q = ?cursor" using reads_cong(1) [OF src] by simp
  from live assms(1) cur obtain c w2 where
    loop: "full_copy_loop (batchSize cfg) name ?cursor 0 (deleteMany name w1) = Some (Inr c, w2)"
    and r: "res_copied r = c"
    and w': "w' = (if copyIndexes cfg then copyIndexesToTarget name (indexes (source_collection w1 name)) w2 else w2)"
    by (auto simp: live_copy_def Let_def split: option.splits prod.splits sum.splits)
  from full_copy_loop_docs [OF loop] obtain batches where
    c: "c = length ?cursor"
    and d2: "docs (target w2 name) = ?cursor"
    and cc: "concat batches = ?cursor"
    and ops2: "target_ops w2 = target_ops w1 @ [OpDeleteMany name] @ map (OpInsertMany name) batches"
    by (auto simp: deleteMany_def)
  from w' d2 have d': "docs (target w' name) = ?cursor"
    by (simp add: copyIndexesToTarget_keeps)
  from w' copyIndexesToTarget_keeps(2) obtain post where
    ops': "target_ops w' = target_ops w2 @ post"
    by (cases "copyIndexes cfg") fastforce+
  from run_probe_ok_log [OF probe [unfolded p]] obtain pre where
    ops1: "target_ops w1 = target_ops w @ pre" and pre: "\<forall>B. OpInsertMany name B \<notin> set pre"
    by fastforce
  have "target_ops w' = target_ops w @ pre @ [OpDeleteMany name] @ map (OpInsertMany name) batches @ post"
    using ops' ops2 ops1 by simp
  with cc pre have log: "\<exists>pre batches post.
        target_ops w' = target_ops w @ pre @ [OpDeleteMany name] @ map (OpInsertMany name) batches @ post \<and>
        concat batches = ?cursor \<and> (\<forall>B. OpInsertMany name B \<notin> set pre)"
    by blast
  have "set ?cursor = {d \<in> set (docs (source_collection w name)). matches ?q d}"
    by (auto simp: find_cursor_def)
  with d' r c log show ?thesis by simp
qed

text \<open>
  Witness for C2: the target holds an outdated \<open>carol\<close> and a document the source
  does not have; after the copy, with the probe on, it holds the three source documents.
\<close>

theorem C2_full_replace_witness:
  "\<not> incremental (demo_config\<lparr>validateSchema := True\<rparr>) \<and>
   (\<exists>r w'. process_collection (demo_config\<lparr>validateSchema := True\<rparr>) ''users''
             (demo_world [(''users'', plain [alice, bob, carol])]
                (\<lambda>n. plain [carol\<lparr>doc_fields := []\<rparr>, \<lparr>doc_id = 9, doc_fields = []\<rparr>]))
           = Some (Inr r, w') \<and>
          res_status r = ''copied'' \<and> res_copied r = 3 \<and>
          docs (target w' ''users'') = [alice, bob, carol])"
proof -
  let ?cfg = "demo_config\<lparr>validateSchema := True\<rparr>"
  let ?w = "demo_world [(''users'', plain [alice, bob, carol])]
                (\<lambda>n. plain [carol\<lparr>doc_fields := []\<rparr>, \<lparr>doc_id = 9, doc_fields = []\<rparr>])"
  have h1: "\<not> incremental ?cfg" by (simp add: demo_config_def)
  obtain r w' where h2: "process_collection ?cfg ''users'' ?w = Some (Inr r, w')"
    and h3: "res_status r = ''copied''"
    by (simp add: store_defs engine_defs demo_defs)
  have cur: "find_cursor ?w ''users'' (build_query ?cfg) = [alice, bob, carol]"
    by (simp add: store_defs engine_defs demo_defs)
  from C2_full_replace [OF h1 h2 h3] cur
  have "docs (target w' ''users'') = [alice, bob, carol]" "res_copied r = 3"
    by simp_all
  with h1 h2 h3 show ?thesis by blast
qed

subsection \<open>C3: incremental runs\<close>

text \<open>
  C3 as stated has the second of two consecutive incremental runs leave the target the
  first one left. Counterexample: the probe is on and the target rejects \<open>bob\<close>. The
  first run passes the probe of \<open>users\<close>, writes \<open>alice\<close> and raises at the batch
  write, before \<open>posts\<close> is reached. In the second run, on the same source, the probe
  of \<open>users\<close> fails on the identity of \<open>alice\<close>, the failure is caught, and the loop
  goes on to copy \<open>posts\<close>: the target after the second run holds \<open>carol\<close>, the
  target after the first does not.
\<close>

theorem C3_counterexample:
  "map_option fst
     (copyCollections (demo_config\<lparr>incremental := True, validateSchema := True\<rparr>)
        (demo_world [(''users'', plain [alice, bob]), (''posts'', plain [carol])] (\<lambda>n. picky [])))
     = Some (Inl BulkWriteError) \<and>
   docs (target (world_after
     (copyCollections (demo_config\<lparr>incremental := True, validateSchema := True\<rparr>)
        (demo_world [(''users'', plain [alice, bob]), (''posts'', plain [carol])] (\<lambda>n. picky [])))
     (demo_world [] (\<lambda>n. picky []))) ''posts'') = [] \<and>
   docs (target (world_after
     (copyCollections (demo_config\<lparr>incremental := True, validateSchema := True\<rparr>)
        (world_after
           (copyCollections (demo_config\<lparr>incremental := True, validateSchema := True\<rparr>)
              (demo_world [(''users'', plain [alice, bob]), (''posts'', plain [carol])] (\<lambda>n. picky [])))
           (demo_world [] (\<lambda>n. picky []))))
     (demo_world [] (\<lambda>n. picky []))) ''posts'') = [carol]"
  by (simp add: store_defs engine_defs demo_defs)

text \<open>
  C3, amended: in an incremental run, however it ends, no target document is deleted:
  every identity present in a target collection before the run is present after it, and
  no \<^verbatim>\<open>deleteMany\<close> is issued; the target documents whose identity is not among the
  source documents matching the predicate are the same documents, in the same order,
  after the run (in import mode, where the documents come from the data file: those
  whose identity is not in the file); and when the run has returned its results, no
  write having raised, running it again on the world it left, with the same options,
  returns and leaves the same target.
\<close>

theorem C3_incremental:
  assumes "incremental cfg"
  shows "(\<forall>res w'. copyCollections cfg w = Some (res, w') \<longrightarrow>
            (\<forall>n. ids (docs (target w n)) \<subseteq> ids (docs (target w' n))) \<and>
            (\<exists>ops. target_ops w' = target_ops w @ ops \<and> (\<forall>n. OpDeleteMany n \<notin> set ops)) \<and>
            (\<not> importJson cfg \<longrightarrow>
               (\<forall>n. filter (\<lambda>d. doc_id d \<notin> ids (find_cursor w n (build_query cfg))) (docs (target w' n))
                  = filter (\<lambda>d. doc_id d \<notin> ids (find_cursor w n (build_query cfg))) (docs (target w n)))) \<and>
            (importJson cfg \<longrightarrow>
               (\<forall>n json. data_files w n = Some (Parsed json) \<longrightarrow>
                  filter (\<lambda>d. doc_id d \<notin> ids json) (docs (target w' n))
                  = filter (\<lambda>d. doc_id d \<notin> ids json) (docs (target w n))))) \<and>
     (\<forall>results w'. copyCollections cfg w = Some (Inr results, w') \<longrightarrow>
        (\<exists>res w''. copyCollections cfg w' = Some (res, w'') \<and> target w'' = target w'))"
proof (intro conjI allI impI)
  fix res w'
  assume run: "copyCollections cfg w = Some (res, w')"
  have main: "no_delete_many w w' \<and>
     (\<forall>n. \<exists>xs. set xs \<subseteq> transfer_docs cfg w n \<and>
        docs (target w' n) = fold upsert xs (docs (target w n)))"
    using copyCollections_unfold [OF run]
  proof (elim disjE conjE exE)
    assume "w' = w"
    then show ?thesis by (auto intro!: exI [of _ "[]"])
  next
    assume "w' = w\<lparr>sourceClient := (sourceClient w)\<lparr>connected := True\<rparr>\<rparr>"
    then show ?thesis by (auto simp: no_delete_many_def intro!: exI [of _ "[]"])
  next
    fix w3
    let ?w2 = "w\<lparr>sourceClient := (sourceClient w)\<lparr>connected := True\<rparr>,
                 targetClient := (targetClient w)\<lparr>connected := True\<rparr>\<rparr>"
    assume loop: "copy_loop cfg (resolve_collections (collections cfg) (map fst (source w))) [] ?w2
                    = Some (res, w3)"
      and w': "w' = close_both w3"
    have "transfer_docs cfg ?w2 = transfer_docs cfg w"
      by (intro transfer_docs_cong) simp_all
    with copy_loop_incremental [OF assms loop] w' show ?thesis
      by (simp add: close_both_def no_delete_many_def)
  qed
  from main show "\<exists>ops. target_ops w' = target_ops w @ ops \<and> (\<forall>n. OpDeleteMany n \<notin> set ops)"
    by (simp add: no_delete_many_def)
  {
    fix n
    from main obtain xs where xs: "set xs \<subseteq> transfer_docs cfg w n"
      and d: "docs (target w' n) = fold upsert xs (docs (target w n))" by blast
    from d show "ids (docs (target w n)) \<subseteq> ids (docs (target w' n))" by simp
  }
  {
    fix n
    assume "\<not> importJson cfg"
    from main obtain xs where xs: "set xs \<subseteq> transfer_docs cfg w n"
      and d: "docs (target w' n) = fold upsert xs (docs (target w n))" by blast
    from xs \<open>\<not> importJson cfg\<close> have "ids xs \<subseteq> ids (find_cursor w n (build_query cfg))"
      by (auto simp: ids_def transfer_docs_def)
    from fold_upsert_outside [OF this] d
    show "filter (\<lambda>d. doc_id d \<notin> ids (find_cursor w n (build_query cfg))) (docs (target w' n))
          = filter (\<lambda>d. doc_id d \<notin> ids (find_cursor w n (build_query cfg))) (docs (target w n))"
      by simp
  }
  {
    fix n json
    assume "importJson cfg" and "data_files w n = Some (Parsed json)"
    from main obtain xs where xs: "set xs \<subseteq> transfer_docs cfg w n"
      and d: "docs (target w' n) = fold upsert xs (docs (target w n))" by blast
    from xs \<open>importJson cfg\<close> \<open>data_files w n = Some (Parsed json)\<close> have "ids xs \<subseteq> ids json"
      by (auto simp: ids_def transfer_docs_def)
    from fold_upsert_outside [OF this] d
    show "filter (\<lambda>d. doc_id d \<notin> ids json) (docs (target w' n))
          = filter (\<lambda>d. doc_id d \<notin> ids json) (docs (target w n))"
      by simp
  }
next
  fix results w'
  assume run: "copyCollections cfg w = Some (Inr results, w')"
  let ?names = "resolve_collections (collections cfg) (map fst (source w))"
  let ?w2 = "w\<lparr>sourceClient := (sourceClient w)\<lparr>connected := True\<rparr>,
               targetClient := (targetClient w)\<lparr>connected := True\<rparr>\<rparr>"
  from run obtain w3 where
    reach: "reachable (sourceClient w)" "reachable (targetClient w)"
    and loop: "copy_loop cfg ?names [] ?w2 = Some (Inr results, w3)"
    and w': "w' = close_both w3"
    by (auto simp: copyCollections_def connect_def Let_def split: if_splits option.splits)
  from copy_loop_source [OF loop] have keep: "source w3 = source w"
    "sourceClient w3 = (sourceClient w)\<lparr>connected := True\<rparr>"
    "targetClient w3 = (targetClient w)\<lparr>connected := True\<rparr>"
    by simp_all
  let ?v2 = "w'\<lparr>sourceClient := (sourceClient w')\<lparr>connected := True\<rparr>,
               targetClient := (targetClient w')\<lparr>connected := True\<rparr>\<rparr>"
  from copy_loop_settles [OF assms loop] have "\<forall>n \<in> set ?names. settled cfg n w3" by simp
  moreover have "settled cfg n ?v2 = settled cfg n w3" for n
    by (rule settled_cong) (simp_all add: w' close_both_def)
  ultimately have "\<forall>n \<in> set ?names. settled cfg n ?v2" by simp
  from copy_loop_settled [OF assms this, of "[]"] obtain res v' where
    loop2: "copy_loop cfg ?names [] ?v2 = Some (res, v')" and tv: "target v' = target ?v2" by blast
  have "copyCollections cfg w' = Some (res, close_both v')"
    using loop2 reach keep w'
    by (simp add: copyCollections_def connect_def Let_def close_both_def close_def)
  moreover have "target (close_both v') = target w'" using tv by (simp add: close_both_def)
  ultimately show "\<exists>res w''. copyCollections cfg w' = Some (res, w'') \<and> target w'' = target w'"
    by blast
qed

text \<open>
  Witness for C3: \<open>since\<close> leaves out \<open>alice\<close>; the target holds older versions of
  \<open>alice\<close> and \<open>bob\<close>. The run copies 2 of 2, the old \<open>alice\<close> stays, and the
  second run leaves the target of the first. An incremental import of a file with
  \<open>bob\<close> and \<open>carol\<close> as an export writes them leaves the old \<open>alice\<close> as well.
\<close>

theorem C3_incremental_witness:
  "incremental (demo_config\<lparr>incremental := True, since := Some 150\<rparr>) \<and>
   (\<exists>results w'.
      copyCollections (demo_config\<lparr>incremental := True, since := Some 150\<rparr>)
        (demo_world [(''users'', plain [alice, bob, carol])]
           (\<lambda>n. plain [alice\<lparr>doc_fields := []\<rparr>, bob\<lparr>doc_fields := []\<rparr>]))
        = Some (Inr results, w') \<and>
      results = [mk_result ''users'' 2 2 ''incremental-copied''] \<and>
      docs (target w' ''users'') = [alice\<lparr>doc_fields := []\<rparr>, bob, carol] \<and>
      (\<exists>res w''. copyCollections (demo_config\<lparr>incremental := True, since := Some 150\<rparr>) w'
                    = Some (res, w'') \<and> target w'' = target w')) \<and>
   (\<exists>results w'.
      copyCollections (demo_config\<lparr>incremental := True, importJson := True\<rparr>)
        ((demo_world [(''users'', plain [alice])]
            (\<lambda>n. plain [alice\<lparr>doc_fields := []\<rparr>, bob\<lparr>doc_fields := []\<rparr>]))
           \<lparr>data_files := [''users'' \<mapsto> Parsed (map stringify_doc [bob, carol])]\<rparr>)
        = Some (Inr results, w') \<and>
      results = [mk_result ''users'' 2 2 ''imported-json''] \<and>
      filter (\<lambda>d. doc_id d \<notin> ids (map stringify_doc [bob, carol])) (docs (target w' ''users''))
        = [alice\<lparr>doc_fields := []\<rparr>])"
proof -
  let ?cfg = "demo_config\<lparr>incremental := True, since := Some 150\<rparr>"
  let ?w = "demo_world [(''users'', plain [alice, bob, carol])]
              (\<lambda>n. plain [alice\<lparr>doc_fields := []\<rparr>, bob\<lparr>doc_fields := []\<rparr>])"
  let ?cfg2 = "demo_config\<lparr>incremental := True, importJson := True\<rparr>"
  let ?v = "(demo_world [(''users'', plain [alice])]
              (\<lambda>n. plain [alice\<lparr>doc_fields := []\<rparr>, bob\<lparr>doc_fields := []\<rparr>]))
             \<lparr>data_files := [''users'' \<mapsto> Parsed (map stringify_doc [bob, carol])]\<rparr>"
  have h: "incremental ?cfg" and h2: "incremental ?cfg2" and imp: "importJson ?cfg2"
    and live: "\<not> importJson ?cfg"
    by (simp_all add: demo_config_def)
  obtain results w' where run: "copyCollections ?cfg ?w = Some (Inr results, w')"
    and res: "results = [mk_result ''users'' 2 2 ''incremental-copied'']"
    and d: "docs (target w' ''users'') = [alice\<lparr>doc_fields := []\<rparr>, bob, carol]"
    by (simp add: store_defs engine_defs demo_defs)
  have cur: "find_cursor ?w ''users'' (build_query ?cfg) = [bob, carol]"
    and before: "docs (target ?w ''users'') = [alice\<lparr>doc_fields := []\<rparr>, bob\<lparr>doc_fields := []\<rparr>]"
    by (simp_all add: store_defs engine_defs demo_defs)
  from C3_incremental [OF h, of ?w] run
  have again: "\<exists>res w''. copyCollections ?cfg w' = Some (res, w'') \<and> target w'' = target w'"
    by blast
  from C3_incremental [OF h, of ?w] run live
  have "filter (\<lambda>d. doc_id d \<notin> ids (find_cursor ?w ''users'' (build_query ?cfg))) (docs (target w' ''users''))
      = filter (\<lambda>d. doc_id d \<notin> ids (find_cursor ?w ''users'' (build_query ?cfg))) (docs (target ?w ''users''))"
    by blast
  then have kept: "filter (\<lambda>d. doc_id d \<notin> ids (map stringify_doc [bob, carol])) (docs (target w' ''users''))
      = [alice\<lparr>doc_fields := []\<rparr>]"
    unfolding cur before by (simp add: demo_defs ids_def)
  obtain results2 v' where run2: "copyCollections ?cfg2 ?v = Some (Inr results2, v')"
    and res2: "results2 = [mk_result ''users'' 2 2 ''imported-json'']"
    by (simp add: store_defs engine_defs demo_defs)
  have fl: "data_files ?v ''users'' = Some (Parsed (map stringify_doc [bob, carol]))"
    and before2: "docs (target ?v ''users'') = [alice\<lparr>doc_fields := []\<rparr>, bob\<lparr>doc_fields := []\<rparr>]"
    by (simp_all add: demo_defs)
  from C3_incremental [OF h2, of ?v] run2 imp fl
  have "filter (\<lambda>d. doc_id d \<notin> ids (map stringify_doc [bob, carol])) (docs (target v' ''users''))
      = filter (\<lambda>d. doc_id d \<notin> ids (map stringify_doc [bob, carol])) (docs (target ?v ''users''))"
    by blast
  then have kept2: "filter (\<lambda>d. doc_id d \<notin> ids (map stringify_doc [bob, carol])) (docs (target v' ''users''))
      = [alice\<lparr>doc_fields := []\<rparr>]"
    unfolding before2 by (simp add: demo_defs ids_def)
  from h run res d again kept run2 res2 kept2 show ?thesis by blast
qed

subsection \<open>C4: closing the connections\<close>

text \<open>
  C4 fails on the code when the target cannot be reached: the source is reachable, its
  connection is opened at line 76, line 77 throws before the \<^verbatim>\<open>try\<close> of line 92
  is entered, and the \<^verbatim>\<open>finally\<close> block never runs. The error reaches the
  caller and there are no results, but the source connection stays open and
  \<^verbatim>\<open>close\<close> was never called on it.
\<close>

theorem C4_target_unreachable:
  "copyCollections demo_config
     ((demo_world [(''users'', plain [alice])] (\<lambda>n. plain []))\<lparr>targetClient := fresh_client False\<rparr>)
   = Some (Inl ConnectionError,
       (demo_world [(''users'', plain [alice])] (\<lambda>n. plain []))
         \<lparr>sourceClient := \<lparr>reachable = True, connected = True, close_calls = 0\<rparr>,
          targetClient := fresh_client False\<rparr>)"
  by (simp add: copyCollections_def connect_def demo_world_def fresh_client_def)

subsection \<open>C5: the batches of a transfer\<close>

text \<open>
  C5 as stated has every transfer of \<open>n\<close> documents with batch size \<open>b\<close> produce
  \<open>ceil (n / b)\<close> batches that hold every document. Counterexample: three documents,
  batch size 2, a target that rejects \<open>bob\<close>. The first batch write raises, in the
  full copy and in the incremental copy alike; one batch has been issued, not two, and
  \<open>carol\<close> is in no batch.
\<close>

theorem C5_counterexample:
  "full_copy_loop 2 ''users'' [alice, bob, carol] 0 (demo_world [] (\<lambda>n. picky []))
     = Some (Inl BulkWriteError,
         set_docs ''users'' [alice]
           (log_op (OpInsertMany ''users'' [alice, bob]) (demo_world [] (\<lambda>n. picky [])))) \<and>
   incremental_copy 2 ''users'' [alice, bob, carol] (demo_world [] (\<lambda>n. picky []))
     = (Inl BulkWriteError,
         set_docs ''users'' [alice]
           (log_op (OpBulkWrite ''users'' [alice, bob]) (demo_world [] (\<lambda>n. picky [])))) \<and>
   target_ops (set_docs ''users'' [alice]
           (log_op (OpInsertMany ''users'' [alice, bob]) (demo_world [] (\<lambda>n. picky []))))
     = [OpInsertMany ''users'' [alice, bob]] \<and>
   (length [alice, bob, carol] + 2 - 1) div 2 = (2::nat)"
  by (simp add: store_defs engine_defs demo_defs)

text \<open>
  C5, amended: for a batch size \<open>b\<close> of at least 1 and a cursor that delivers \<open>n\<close>
  documents, the full copy returns; and when the full copy or the incremental copy
  returns without a batch write having raised, the batch writes it issued are, in order,
  \<open>ceil (n / b)\<close> batches, each of size \<open>b\<close> but possibly the last, whose
  concatenation is what the cursor delivered: every document is in exactly one batch, in
  the order of the cursor, and the count of copied documents is \<open>n\<close>.
\<close>

theorem C5_batches:
  assumes "0 < b"
  shows "(\<exists>y. full_copy_loop b name cursor 0 w = Some y) \<and>
     (\<forall>copied w'. full_copy_loop b name cursor 0 w = Some (Inr copied, w') \<longrightarrow>
        copied = length cursor \<and>
        (\<exists>batches. batched b cursor batches \<and>
           target_ops w' = target_ops w @ map (OpInsertMany name) batches)) \<and>
     (\<forall>copied w'. incremental_copy b name cursor w = (Inr copied, w') \<longrightarrow>
        copied = length cursor \<and>
        (\<exists>batches. batched b cursor batches \<and>
           target_ops w' = target_ops w @ map (OpBulkWrite name) batches))"
proof (intro conjI allI impI)
  show "\<exists>y. full_copy_loop b name cursor 0 w = Some y"
    using full_copy_loop_returns [OF assms] .
next
  fix copied w'
  assume "full_copy_loop b name cursor 0 w = Some (Inr copied, w')"
  from full_copy_loop_batches [OF assms this] obtain batches where
    c: "copied = length cursor" and sh: "batch_shape b batches" and cc: "concat batches = cursor"
    and ops: "target_ops w' = target_ops w @ map (OpInsertMany name) batches"
    by auto
  from c show "copied = length cursor" .
  from batch_shape_count [OF assms sh] sh cc ops
  show "\<exists>batches. batched b cursor batches \<and>
           target_ops w' = target_ops w @ map (OpInsertMany name) batches"
    by (auto simp: batched_def)
next
  fix copied w'
  assume "incremental_copy b name cursor w = (Inr copied, w')"
  from incremental_copy_batches [OF assms this] obtain batches where
    c: "copied = length cursor" and sh: "batch_shape b batches" and cc: "concat batches = cursor"
    and ops: "target_ops w' = target_ops w @ map (OpBulkWrite name) batches"
    by auto
  from c show "copied = length cursor" .
  from batch_shape_count [OF assms sh] sh cc ops
  show "\<exists>batches. batched b cursor batches \<and>
           target_ops w' = target_ops w @ map (OpBulkWrite name) batches"
    by (auto simp: batched_def)
qed

text \<open>
  Witness for C5: three documents and batch size 2 give the batches of sizes 2 and 1,
  for the full copy and for the incremental copy.
\<close>

theorem C5_batches_witness:
  "(0::nat) < 2 \<and>
   (\<exists>w'. full_copy_loop 2 ''users'' [alice, bob, carol] 0 (demo_world [] (\<lambda>n. plain []))
            = Some (Inr 3, w') \<and>
         target_ops w' = map (OpInsertMany ''users'') [[alice, bob], [carol]]) \<and>
   (\<exists>w'. incremental_copy 2 ''users'' [alice, bob, carol] (demo_world [] (\<lambda>n. plain []))
            = (Inr 3, w') \<and>
         target_ops w' = map (OpBulkWrite ''users'') [[alice, bob], [carol]]) \<and>
   batched 2 [alice, bob, carol] [[alice, bob], [carol]]"
proof -
  let ?w = "demo_world [] (\<lambda>n. plain [])"
  have h: "(0::nat) < 2" by simp
  obtain c1 w1 where full: "full_copy_loop 2 ''users'' [alice, bob, carol] 0 ?w = Some (Inr c1, w1)"
    and ops1: "target_ops w1 = map (OpInsertMany ''users'') [[alice, bob], [carol]]"
    by (simp add: store_defs engine_defs demo_defs)
  obtain c2 w2 where inc: "incremental_copy 2 ''users'' [alice, bob, carol] ?w = (Inr c2, w2)"
    and ops2: "target_ops w2 = map (OpBulkWrite ''users'') [[alice, bob], [carol]]"
    by (simp add: store_defs engine_defs demo_defs)
  note inst = C5_batches [OF h, of "''users''" "[alice, bob, carol]" ?w]
  from inst full obtain batches where
    c1: "c1 = length [alice, bob, carol]"
    and b: "batched 2 [alice, bob, carol] batches"
    and "target_ops w1 = target_ops ?w @ map (OpInsertMany ''users'') batches"
    by blast
  with ops1 have "map (OpInsertMany ''users'') batches = map (OpInsertMany ''users'') [[alice, bob], [carol]]"
    by (simp add: demo_world_def)
  then have "batches = [[alice, bob], [carol]]"
    by (auto simp: map_eq_Cons_conv)
  with b have shape: "batched 2 [alice, bob, carol] [[alice, bob], [carol]]" by simp
  from inst inc have c2: "c2 = length [alice, bob, carol]" by blast
  from c1 full ops1 have "\<exists>w'. full_copy_loop 2 ''users'' [alice, bob, carol] 0 ?w = Some (Inr 3, w') \<and>
         target_ops w' = map (OpInsertMany ''users'') [[alice, bob], [carol]]" by auto
  moreover from c2 inc ops2 have "\<exists>w'. incremental_copy 2 ''users'' [alice, bob, carol] ?w = (Inr 3, w') \<and>
         target_ops w' = map (OpBulkWrite ''users'') [[alice, bob], [carol]]" by auto
  ultimately show ?thesis using h shape by blast
qed

subsection \<open>C6: a collection in which nothing matches\<close>

text \<open>
  C6: when the count of the source documents under the predicate is 0, the result has
  status \<open>empty\<close> (\<open>no-new-docs\<close> when incremental) with copied = 0, and no operation
  is issued against the target: the world, its target and the log of target operations
  are what they were.
\<close>

theorem C6_nothing_matched:
  assumes "countDocuments w name (build_query cfg) = 0"
  shows "\<exists>r w'. process_collection cfg name w = Some (Inr r, w') \<and>
           res_name r = name \<and> res_copied r = 0 \<and> res_total r = 0 \<and>
           res_status r = (if incremental cfg then ''no-new-docs'' else ''empty'') \<and>
           target_ops w' = target_ops w \<and> target w' = target w \<and> w' = w"
  using assms by (simp add: process_collection_def)

text \<open>
  Witness for C6: an incremental run with probe and index copying requested, whose
  \<open>since\<close> is later than the only source document.
\<close>

theorem C6_nothing_matched_witness:
  "countDocuments (demo_world [(''users'', plain [alice])] (\<lambda>n. plain [bob])) ''users''
     (build_query (demo_config\<lparr>incremental := True, since := Some 150, validateSchema := True,
        copyIndexes := True\<rparr>)) = 0 \<and>
   (\<exists>r. process_collection
     (demo_config\<lparr>incremental := True, since := Some 150, validateSchema := True, copyIndexes := True\<rparr>)
     ''users'' (demo_world [(''users'', plain [alice])] (\<lambda>n. plain [bob]))
     = Some (Inr r, demo_world [(''users'', plain [alice])] (\<lambda>n. plain [bob])) \<and>
     res_status r = ''no-new-docs'' \<and> res_copied r = 0 \<and> res_total r = 0)"
proof -
  have h: "countDocuments (demo_world [(''users'', plain [alice])] (\<lambda>n. plain [bob])) ''users''
     (build_query (demo_config\<lparr>incremental := True, since := Some 150, validateSchema := True,
        copyIndexes := True\<rparr>)) = 0"
    by (simp add: store_defs engine_defs demo_defs)
  from C6_nothing_matched [OF h]
  show ?thesis using h
    by (auto simp: demo_config_def)
qed

subsection \<open>C7: dry runs\<close>

text \<open>
  C7 as stated gives every result of a dry run the status \<open>dry-run\<close>.
  Counterexample: a dry run over a source collection without documents records
  \<open>empty\<close>, since the test of line 109 comes before the one of line 132.
\<close>

theorem C7_counterexample:
  "process_collection (demo_config\<lparr>dryRun := True\<rparr>) ''users''
     (demo_world [(''users'', plain [])] (\<lambda>n. plain [bob]))
   = Some (Inr (mk_result ''users'' 0 0 ''empty''),
           demo_world [(''users'', plain [])] (\<lambda>n. plain [bob]))"
  by (simp add: store_defs engine_defs demo_defs)

text \<open>
  C7, amended: a dry run returns, leaves every target collection as it was and issues no
  operation against the target; when both endpoints can be reached its results are, for
  each resolved collection in order, copied = 0, the count of the source documents under
  the predicate as total, and the status \<open>dry-run\<close> when that count is not 0,
  \<open>empty\<close> (\<open>no-new-docs\<close> when incremental) when it is 0.
\<close>

theorem C7_dry_run:
  assumes "dryRun cfg"
  shows "\<exists>res w'. copyCollections cfg w = Some (res, w') \<and>
           target w' = target w \<and> target_ops w' = target_ops w \<and>
           (reachable (sourceClient w) \<and> reachable (targetClient w) \<longrightarrow>
              res = Inr (map (\<lambda>name. mk_result name 0 (countDocuments w name (build_query cfg))
                                 (if countDocuments w name (build_query cfg) = 0
                                  then (if incremental cfg then ''no-new-docs'' else ''empty'')
                                  else ''dry-run''))
                           (resolve_collections (collections cfg) (map fst (source w)))))"
  by (simp add: copyCollections_def connect_def Let_def dry_run_loop [OF assms] close_both_def
      countDocuments_def source_collection_def)

text \<open>
  Witness for C7: a dry run with probe and index copying requested, over a collection
  with two documents and an empty one.
\<close>

theorem C7_dry_run_witness:
  "dryRun (demo_config\<lparr>dryRun := True, validateSchema := True, copyIndexes := True\<rparr>) \<and>
   (\<exists>w'. copyCollections (demo_config\<lparr>dryRun := True, validateSchema := True, copyIndexes := True\<rparr>)
           (demo_world [(''users'', plain [alice, bob]), (''posts'', plain [])] (\<lambda>n. plain [carol]))
         = Some (Inr [mk_result ''users'' 0 2 ''dry-run'', mk_result ''posts'' 0 0 ''empty''], w') \<and>
         target w' = (\<lambda>n. plain [carol]) \<and> target_ops w' = [])"
proof -
  have h: "dryRun (demo_config\<lparr>dryRun := True, validateSchema := True, copyIndexes := True\<rparr>)"
    by (simp add: demo_config_def)
  from C7_dry_run [OF h, of "demo_world [(''users'', plain [alice, bob]), (''posts'', plain [])] (\<lambda>n. plain [carol])"]
  show ?thesis
    by (simp add: store_defs engine_defs demo_defs)
qed

subsection \<open>C8: import without data\<close>

text \<open>
  C8 as stated records \<open>no-source-file\<close> for a missing data file and
  \<open>source-empty\<close> for an empty array, for every collection in import mode.
  Counterexample: the code records \<open>no-json-file\<close> (line 145) and \<open>json-empty\<close>
  (line 151); and when the source collection has no document the import branch is not
  reached at all, the status being \<open>empty\<close> although the file is missing.
\<close>

theorem C8_counterexample:
  "process_collection (demo_config\<lparr>importJson := True\<rparr>) ''users''
     (demo_world [(''users'', plain [alice])] (\<lambda>n. plain [bob]))
   = Some (Inr (mk_result ''users'' 0 0 ''no-json-file''),
           demo_world [(''users'', plain [alice])] (\<lambda>n. plain [bob])) \<and>
   process_collection (demo_config\<lparr>importJson := True\<rparr>) ''users''
     ((demo_world [(''users'', plain [alice])] (\<lambda>n. plain [bob]))
        \<lparr>data_files := [''users'' \<mapsto> Parsed []]\<rparr>)
   = Some (Inr (mk_result ''users'' 0 0 ''json-empty''),
           (demo_world [(''users'', plain [alice])] (\<lambda>n. plain [bob]))
             \<lparr>data_files := [''users'' \<mapsto> Parsed []]\<rparr>) \<and>
   process_collection (demo_config\<lparr>importJson := True\<rparr>) ''users''
     (demo_world [(''users'', plain [])] (\<lambda>n. plain [bob]))
   = Some (Inr (mk_result ''users'' 0 0 ''empty''),
           demo_world [(''users'', plain [])] (\<lambda>n. plain [bob]))"
  by (simp add: store_defs engine_defs demo_defs)

text \<open>
  C8, amended: in import mode without dry run, for a collection that reaches the import
  branch (the count of its source documents under the predicate is not 0 and the probe
  is off or has passed), a missing data file is recorded as \<open>no-json-file\<close> and an
  empty array as \<open>json-empty\<close>, with copied = 0 and total = 0; the target is what it
  was, and without the probe the whole world is.
\<close>

theorem C8_import_without_data:
  assumes "importJson cfg" and "\<not> dryRun cfg"
    and "0 < countDocuments w name (build_query cfg)"
    and "run_probe cfg name (build_query cfg) w = (Inr (), w1)"
    and "data_files w name = None \<or> data_files w name = Some (Parsed [])"
  shows "process_collection cfg name w =
           Some (Inr (mk_result name 0 0
                        (if data_files w name = None then ''no-json-file'' else ''json-empty'')), w1) \<and>
         target w1 = target w \<and> (\<not> validateSchema cfg \<longrightarrow> w1 = w)"
proof -
  from run_probe_ok_target [OF assms(4)] have same: "target w1 = target w" "data_files w1 = data_files w"
    by simp_all
  from assms(5) same(2) have "import_collection cfg name w1 =
      Some (Inr (mk_result name 0 0 (if data_files w name = None then ''no-json-file'' else ''json-empty'')), w1)"
    by (auto simp: import_collection_def)
  with assms(1-4) have "process_collection cfg name w =
           Some (Inr (mk_result name 0 0
                        (if data_files w name = None then ''no-json-file'' else ''json-empty'')), w1)"
    by (simp add: process_collection_def Let_def)
  moreover from assms(4) have "\<not> validateSchema cfg \<longrightarrow> w1 = w"
    by (auto simp: run_probe_def)
  ultimately show ?thesis using same(1) by simp
qed

text \<open>
  Witness for C8: an import with the probe requested, from a data file that holds the
  empty array; the only target operations are the insert and the delete of the probe.
  And an import without the probe, with no data file: the world is what it was.
\<close>

theorem C8_import_without_data_witness:
  "importJson (demo_config\<lparr>importJson := True, validateSchema := True\<rparr>) \<and>
   \<not> dryRun (demo_config\<lparr>importJson := True, validateSchema := True\<rparr>) \<and>
   process_collection (demo_config\<lparr>importJson := True, validateSchema := True\<rparr>) ''users''
     ((demo_world [(''users'', plain [alice])] (\<lambda>n. plain [bob]))
        \<lparr>data_files := [''users'' \<mapsto> Parsed []]\<rparr>)
   = Some (Inr (mk_result ''users'' 0 0 ''json-empty''),
           (demo_world [(''users'', plain [alice])] (\<lambda>n. plain [bob]))
             \<lparr>data_files := [''users'' \<mapsto> Parsed []],
              target_ops := [OpInsertOne ''users'' (validation_doc alice), OpDeleteOne ''users'' 1]\<rparr>) \<and>
   process_collection (demo_config\<lparr>importJson := True\<rparr>) ''users''
     (demo_world [(''users'', plain [alice])] (\<lambda>n. plain [bob]))
   = Some (Inr (mk_result ''users'' 0 0 ''no-json-file''),
           demo_world [(''users'', plain [alice])] (\<lambda>n. plain [bob]))"
proof -
  let ?cfg = "demo_config\<lparr>importJson := True, validateSchema := True\<rparr>"
  let ?w = "(demo_world [(''users'', plain [alice])] (\<lambda>n. plain [bob]))
              \<lparr>data_files := [''users'' \<mapsto> Parsed []]\<rparr>"
  let ?w1 = "(demo_world [(''users'', plain [alice])] (\<lambda>n. plain [bob]))
             \<lparr>data_files := [''users'' \<mapsto> Parsed []],
              target_ops := [OpInsertOne ''users'' (validation_doc alice), OpDeleteOne ''users'' 1]\<rparr>"
  let ?cfg2 = "demo_config\<lparr>importJson := True\<rparr>"
  let ?v = "demo_world [(''users'', plain [alice])] (\<lambda>n. plain [bob])"
  have h1: "importJson ?cfg" and h2: "\<not> dryRun ?cfg" by (simp_all add: demo_config_def)
  have h3: "0 < countDocuments ?w ''users'' (build_query ?cfg)"
    by (simp add: store_defs engine_defs demo_defs)
  have h4: "run_probe ?cfg ''users'' (build_query ?cfg) ?w = (Inr (), ?w1)"
    by (simp add: store_defs engine_defs demo_defs fun_upd_idem)
  have h5: "data_files ?w ''users'' = None \<or> data_files ?w ''users'' = Some (Parsed [])"
    by simp
  have g1: "importJson ?cfg2" and g2: "\<not> dryRun ?cfg2" and g0: "\<not> validateSchema ?cfg2"
    by (simp_all add: demo_config_def)
  have g3: "0 < countDocuments ?v ''users'' (build_query ?cfg2)"
    by (simp add: store_defs engine_defs demo_defs)
  have g4: "run_probe ?cfg2 ''users'' (build_query ?cfg2) ?v = (Inr (), ?v)"
    by (simp add: store_defs engine_defs demo_defs)
  have g5: "data_files ?v ''users'' = None \<or> data_files ?v ''users'' = Some (Parsed [])"
    and none: "data_files ?v ''users'' = None"
    by (simp_all add: demo_world_def)
  from C8_import_without_data [OF g1 g2 g3 g4 g5] none g0
  have "process_collection ?cfg2 ''users'' ?v = Some (Inr (mk_result ''users'' 0 0 ''no-json-file''), ?v)"
    by simp
  with C8_import_without_data [OF h1 h2 h3 h4 h5] h1 h2 show ?thesis
    by simp
qed

subsection \<open>C9: the sequence of collections that is processed\<close>

text \<open>
  C9 as stated: the resolved sequence is the requested set intersected with the
  collections of the source, in the listing order of the source. Counterexample: the
  source lists \<open>a, b\<close> and the request is \<open>b, a\<close>; line 96 filters the request, so
  the order is the one of the request, \<open>b, a\<close>, not \<open>a, b\<close>.
\<close>

theorem C9_counterexample:
  "resolve_collections [''b'', ''a''] [''a'', ''b''] = [''b'', ''a''] \<and>
   source_order_selection [''b'', ''a''] [''a'', ''b''] = [''a'', ''b'']"
  by (simp add: resolve_collections_def source_order_selection_def)

text \<open>
  C9, amended: the collections a run processes, read off the names of its results, are
  the requested names that exist on the source, in the order (and with the repetitions)
  of the request; when nothing is requested they are all collections of the source in
  its listing order.
\<close>

theorem C9_request_order:
  assumes "copyCollections cfg w = Some (Inr results, w')"
  shows "map res_name results =
           (if collections cfg = [] then map fst (source w)
            else filter (\<lambda>c. c \<in> fst ` set (source w)) (collections cfg))"
proof -
  from assms obtain w2 w3 where
    loop: "copy_loop cfg (resolve_collections (collections cfg) (map fst (source w2))) [] w2
             = Some (Inr results, w3)"
    and src: "source w2 = source w"
    by (auto simp: copyCollections_def Let_def split: sum.splits option.splits)
  from copy_loop_names [OF loop] src show ?thesis
    by (simp add: resolve_collections_def)
qed

text \<open>
  Witness for C9: the source lists \<open>a\<close> (one document) and \<open>b\<close> (empty); the request
  \<open>b, a, c\<close> yields results for \<open>b\<close> and \<open>a\<close>, in that order.
\<close>

theorem C9_request_order_witness:
  "map res_name
     (case copyCollections (demo_config\<lparr>collections := [''b'', ''a'', ''c'']\<rparr>)
             (demo_world [(''a'', plain [alice]), (''b'', plain [])] (\<lambda>n. plain [])) of
        Some (Inr results, w') \<Rightarrow> results | _ \<Rightarrow> []) = [''b'', ''a'']"
proof -
  obtain results w' where run:
    "copyCollections (demo_config\<lparr>collections := [''b'', ''a'', ''c'']\<rparr>)
       (demo_world [(''a'', plain [alice]), (''b'', plain [])] (\<lambda>n. plain []))
     = Some (Inr results, w')"
    by (simp add: store_defs engine_defs demo_defs)
  from C9_request_order [OF run] have "map res_name results = [''b'', ''a'']"
    by (simp add: demo_defs)
  with run show ?thesis by simp
qed

subsection \<open>C10: the schema probe and the identity of its sample\<close>

text \<open>
  C10: when the probe runs (\<open>validateSchema\<close>, no dry run, no export) on a sample the
  source delivers, the document it inserts is a copy of the sample: it has the identity
  of the sample, every field of the sample but the marker \<^verbatim>\<open>_validationTest\<close> with
  its value and in its place, and the marker with the value true; so if the
  target collection already holds a document with that identity, the collection is
  recorded \<open>schema-validation-failed\<close> with a duplicate-key error, whatever the
  validator of the target accepts, and nothing but the failed insert is issued; and
  whenever the probe succeeds it has issued the insert and the delete by that same
  identity, and the target is what it was.
\<close>

theorem C10_probe_keeps_identity:
  assumes "validateSchema cfg" and "\<not> dryRun cfg" and "\<not> exportJson cfg"
    and "findOne w name (build_query cfg) = Some sampleDoc"
  shows "doc_id (validation_doc sampleDoc) = doc_id sampleDoc \<and>
     map_of (doc_fields (validation_doc sampleDoc)) =
       (map_of (doc_fields sampleDoc))(''_validationTest'' \<mapsto> JBool True) \<and>
     filter (\<lambda>kv. fst kv \<noteq> ''_validationTest'') (doc_fields (validation_doc sampleDoc)) =
       filter (\<lambda>kv. fst kv \<noteq> ''_validationTest'') (doc_fields sampleDoc) \<and>
     (doc_id sampleDoc \<in> ids (docs (target w name)) \<longrightarrow>
        process_collection cfg name w =
          Some (Inr ((mk_result name 0 (countDocuments w name (build_query cfg))
                        ''schema-validation-failed'')\<lparr>res_error := Some DuplicateKey\<rparr>),
                log_op (OpInsertOne name (validation_doc sampleDoc)) w)) \<and>
     (\<forall>u w'. run_probe cfg name (build_query cfg) w = (Inr u, w') \<longrightarrow>
        w' = log_op (OpDeleteOne name (doc_id sampleDoc))
               (log_op (OpInsertOne name (validation_doc sampleDoc)) w) \<and>
        target w' = target w)"
proof (intro conjI impI allI)
  show "doc_id (validation_doc sampleDoc) = doc_id sampleDoc" by simp
next
  show "map_of (doc_fields (validation_doc sampleDoc)) =
       (map_of (doc_fields sampleDoc))(''_validationTest'' \<mapsto> JBool True)"
    by (rule validation_doc_lookup)
next
  show "filter (\<lambda>kv. fst kv \<noteq> ''_validationTest'') (doc_fields (validation_doc sampleDoc)) =
       filter (\<lambda>kv. fst kv \<noteq> ''_validationTest'') (doc_fields sampleDoc)"
    by (rule validation_doc_other_fields)
next
  assume dup: "doc_id sampleDoc \<in> ids (docs (target w name))"
  have "run_probe cfg name (build_query cfg) w =
          (Inl DuplicateKey, log_op (OpInsertOne name (validation_doc sampleDoc)) w)"
    using assms schema_probe_duplicate [OF assms(4) dup] by (simp add: run_probe_def)
  with findOne_count [OF assms(4)]
  show "process_collection cfg name w =
          Some (Inr ((mk_result name 0 (countDocuments w name (build_query cfg))
                        ''schema-validation-failed'')\<lparr>res_error := Some DuplicateKey\<rparr>),
                log_op (OpInsertOne name (validation_doc sampleDoc)) w)"
    by (simp add: process_collection_def Let_def)
next
  fix u w'
  assume ok: "run_probe cfg name (build_query cfg) w = (Inr u, w')"
  with assms have sp: "schema_probe name (build_query cfg) w = (Inr u, w')"
    by (simp add: run_probe_def)
  show "w' = log_op (OpDeleteOne name (doc_id sampleDoc))
               (log_op (OpInsertOne name (validation_doc sampleDoc)) w)"
  proof (cases "doc_id sampleDoc \<in> ids (docs (target w name))")
    case True
    from schema_probe_duplicate [OF assms(4) True] sp show ?thesis by simp
  next
    case False
    show ?thesis
    proof (cases "validator (target w name) (validation_doc sampleDoc)")
      case True
      from schema_probe_passes [OF assms(4) False True] sp show ?thesis by simp
    next
      case nv: False
      from schema_probe_rejected [OF assms(4) False nv] sp show ?thesis by simp
    qed
  qed
  from schema_probe_ok_target [OF sp] show "target w' = target w" by simp
qed

text \<open>
  Witness for C10: the target already holds \<open>alice\<close>, the first source document
  (as after an earlier sync): the collection is skipped with a duplicate-key failure.
  On a target that holds only \<open>carol\<close> the probe passes with insert and delete.
  The document of the probe has the name of \<open>alice\<close> and the marker.
\<close>

theorem C10_probe_keeps_identity_witness:
  "validateSchema (demo_config\<lparr>validateSchema := True\<rparr>) \<and>
   findOne (demo_world [(''users'', plain [alice, bob])] (\<lambda>n. plain [alice])) ''users''
     (build_query (demo_config\<lparr>validateSchema := True\<rparr>)) = Some alice \<and>
   alice \<in> set (docs (target (demo_world [(''users'', plain [alice, bob])] (\<lambda>n. plain [alice])) ''users'')) \<and>
   process_collection (demo_config\<lparr>validateSchema := True\<rparr>) ''users''
     (demo_world [(''users'', plain [alice, bob])] (\<lambda>n. plain [alice]))
   = Some (Inr ((mk_result ''users'' 0 2 ''schema-validation-failed'')\<lparr>res_error := Some DuplicateKey\<rparr>),
           log_op (OpInsertOne ''users'' (validation_doc alice))
             (demo_world [(''users'', plain [alice, bob])] (\<lambda>n. plain [alice]))) \<and>
   run_probe (demo_config\<lparr>validateSchema := True\<rparr>) ''users''
     (build_query (demo_config\<lparr>validateSchema := True\<rparr>))
     (demo_world [(''users'', plain [alice, bob])] (\<lambda>n. plain [carol]))
   = (Inr (), log_op (OpDeleteOne ''users'' 1) (log_op (OpInsertOne ''users'' (validation_doc alice))
        (demo_world [(''users'', plain [alice, bob])] (\<lambda>n. plain [carol])))) \<and>
   map_of (doc_fields (validation_doc alice)) ''name'' = Some (JStr ''Alice'') \<and>
   map_of (doc_fields (validation_doc alice)) ''_validationTest'' = Some (JBool True)"
proof -
  let ?cfg = "demo_config\<lparr>validateSchema := True\<rparr>"
  let ?w = "demo_world [(''users'', plain [alice, bob])] (\<lambda>n. plain [alice])"
  let ?v = "demo_world [(''users'', plain [alice, bob])] (\<lambda>n. plain [carol])"
  have h1: "validateSchema ?cfg" and h2: "\<not> dryRun ?cfg" and h3: "\<not> exportJson ?cfg"
    by (simp_all add: demo_config_def)
  have h4: "findOne ?w ''users'' (build_query ?cfg) = Some alice"
    by (simp add: store_defs engine_defs demo_defs)
  have h4': "findOne ?v ''users'' (build_query ?cfg) = Some alice"
    by (simp add: store_defs engine_defs demo_defs)
  have dup: "doc_id alice \<in> ids (docs (target ?w ''users''))"
    and mem: "alice \<in> set (docs (target ?w ''users''))"
    and cnt: "countDocuments ?w ''users'' (build_query ?cfg) = 2"
    by (simp_all add: store_defs engine_defs demo_defs)
  obtain u v' where ok: "run_probe ?cfg ''users'' (build_query ?cfg) ?v = (Inr u, v')"
    by (simp add: store_defs engine_defs demo_defs)
  from C10_probe_keeps_identity [OF h1 h2 h3 h4] dup cnt
  have a: "process_collection ?cfg ''users'' ?w
     = Some (Inr ((mk_result ''users'' 0 2 ''schema-validation-failed'')\<lparr>res_error := Some DuplicateKey\<rparr>),
           log_op (OpInsertOne ''users'' (validation_doc alice)) ?w)"
    by simp
  from C10_probe_keeps_identity [OF h1 h2 h3 h4'] ok
  have "v' = log_op (OpDeleteOne ''users'' (doc_id alice)) (log_op (OpInsertOne ''users'' (validation_doc alice)) ?v)"
    by blast
  with ok have b: "run_probe ?cfg ''users'' (build_query ?cfg) ?v
     = (Inr (), log_op (OpDeleteOne ''users'' 1) (log_op (OpInsertOne ''users'' (validation_doc alice)) ?v))"
    by (simp add: alice_def)
  from C10_probe_keeps_identity [OF h1 h2 h3 h4]
  have "map_of (doc_fields (validation_doc alice)) =
          (map_of (doc_fields alice))(''_validationTest'' \<mapsto> JBool True)"
    by blast
  then have c: "map_of (doc_fields (validation_doc alice)) ''name'' = Some (JStr ''Alice'')"
    "map_of (doc_fields (validation_doc alice)) ''_validationTest'' = Some (JBool True)"
    by (simp_all add: alice_def)
  from h1 h4 mem a b c show ?thesis by simp
qed

end
